theory Spec2Isabelle
  imports Complex_Main "HOL-Library.Word" "HOL-Library.Multiset" "HOL-Library.Sublist" "HOL-Library.AList"
begin

section \<open>Data model of the Huffman engine (src/lib/huffman.ts)\<close>

text \<open>
  A JavaScript string is a sequence of UTF-16 code units. The engine reads its input in
  two ways: \<^verbatim>\<open>for (const char of text)\<close> walks the string by code point (a high
  surrogate directly followed by a low surrogate is one item of two code units, every
  other code unit is an item of its own), while \<^verbatim>\<open>text.split('')\<close> cuts it into
  single code units. Both are modelled, on lists of 16-bit words.
\<close>

type_synonym code_unit = "16 word"
type_synonym jsstring = "code_unit list"

definition isHighSurrogate :: "code_unit \<Rightarrow> bool" where
  "isHighSurrogate c = (0xD800 \<le> c \<and> c \<le> 0xDBFF)"

definition isLowSurrogate :: "code_unit \<Rightarrow> bool" where
  "isLowSurrogate c = (0xDC00 \<le> c \<and> c \<le> 0xDFFF)"

text \<open>The string iterator used by \<^verbatim>\<open>for ... of\<close>.\<close>

fun codePoints :: "jsstring \<Rightarrow> jsstring list" where
  "codePoints [] = []"
| "codePoints [c] = [[c]]"
| "codePoints (c # d # rest) =
     (if isHighSurrogate c \<and> isLowSurrogate d then [c, d] # codePoints rest
      else [c] # codePoints (d # rest))"

text \<open>\<^verbatim>\<open>text.split('')\<close>: one string per code unit.\<close>

definition split_units :: "jsstring \<Rightarrow> jsstring list" where
  "split_units text = map (\<lambda>c. [c]) text"

text \<open>The two bit characters \<^verbatim>\<open>"0"\<close> and \<^verbatim>\<open>"1"\<close>.\<close>

abbreviation bit0 :: jsstring where "bit0 \<equiv> [0x30]"
abbreviation bit1 :: jsstring where "bit1 \<equiv> [0x31]"

text \<open>
  The only exception the engine can raise is the TypeError of reading a property of
  \<^verbatim>\<open>null\<close> or \<^verbatim>\<open>undefined\<close>.
\<close>

datatype error = TypeError

text \<open>
  \<^verbatim>\<open>interface HuffmanNode { char: string | null; freq: number; left, right: HuffmanNode | null }\<close>.
  Frequencies are counts of symbols and sums of such counts, far below \<open>2^53\<close>, so
  the doubles that hold them are exact naturals.
\<close>

datatype HuffmanNode =
  Node (char: "jsstring option") (freq: nat) (left: "HuffmanNode option") (right: "HuffmanNode option")

text \<open>
  A \<^verbatim>\<open>Record<string, T>\<close> is an object: an association list in the order in which
  its properties were created. \<^verbatim>\<open>r[k]\<close> is \<^const>\<open>map_of\<close>, \<^verbatim>\<open>r[k] = v\<close> is
  \<^const>\<open>AList.update\<close> (in place for an existing key, appended for a new one).
\<close>

type_synonym 'v jsrecord = "(jsstring \<times> 'v) list"

text \<open>
  \<^verbatim>\<open>interface HuffmanResult\<close>. The sizes are exact naturals; the ratio is kept as an exact
  rational, the rounding of the double that holds it is not modelled (the only value of it
  that a property below depends on is 0).
\<close>

record HuffmanResult =
  frequencies :: "nat jsrecord"
  codes :: "jsstring jsrecord"
  encoded :: jsstring
  decoded :: jsstring
  compressionRatio :: rat
  originalSize :: nat
  compressedSize :: nat

section \<open>Property order of objects\<close>

text \<open>
  \<^verbatim>\<open>Object.entries\<close> lists the keys that are array indices (canonical decimal numerals
  up to \<open>2^32 - 2\<close>) first, in ascending numeric order, and then the other string keys
  in creation order.
\<close>

definition isDigit :: "code_unit \<Rightarrow> bool" where
  "isDigit d = (0x30 \<le> d \<and> d \<le> 0x39)"

definition decimalValue :: "jsstring \<Rightarrow> nat" where
  "decimalValue k = foldl (\<lambda>acc d. 10 * acc + (unat d - 48)) 0 k"

definition isArrayIndex :: "jsstring \<Rightarrow> bool" where
  "isArrayIndex k =
     (k \<noteq> [] \<and> list_all isDigit k \<and> (hd k = 0x30 \<longrightarrow> length k = 1) \<and> decimalValue k \<le> 2 ^ 32 - 2)"

definition Object_entries :: "'v jsrecord \<Rightarrow> (jsstring \<times> 'v) list" where
  "Object_entries r =
     sort_key (\<lambda>e. decimalValue (fst e)) (filter (\<lambda>e. isArrayIndex (fst e)) r)
     @ filter (\<lambda>e. \<not> isArrayIndex (fst e)) r"

section \<open>MinHeap\<close>

text \<open>
  The class has one field, the array \<^verbatim>\<open>heap\<close>; its methods take and return it.
  Indices are naturals. \<^verbatim>\<open>getParentIndex\<close> is \<^verbatim>\<open>Math.floor((index - 1) / 2)\<close>; its only
  call is behind the test \<^verbatim>\<open>index === 0\<close> of \<^verbatim>\<open>heapifyUp\<close>, so the subtraction never
  goes below zero.
\<close>

type_synonym MinHeap = "HuffmanNode list"

definition getParentIndex :: "nat \<Rightarrow> nat" where
  "getParentIndex index = (index - 1) div 2"

definition getLeftChildIndex :: "nat \<Rightarrow> nat" where
  "getLeftChildIndex index = 2 * index + 1"

definition getRightChildIndex :: "nat \<Rightarrow> nat" where
  "getRightChildIndex index = 2 * index + 2"

definition swap :: "MinHeap \<Rightarrow> nat \<Rightarrow> nat \<Rightarrow> MinHeap" where
  "swap h index1 index2 = h[index1 := h ! index2, index2 := h ! index1]"

text \<open>
  \<^verbatim>\<open>heapifyUp\<close> reads \<^verbatim>\<open>heap[parentIndex].freq\<close> and \<^verbatim>\<open>heap[index].freq\<close>; the parent
  index is below the index, so a read of \<^verbatim>\<open>undefined.freq\<close> happens exactly when the
  index is outside the array.
\<close>

function heapifyUp :: "MinHeap \<Rightarrow> nat \<Rightarrow> error + MinHeap" where
  "heapifyUp h index =
     (if index = 0 then Inr h
      else let parentIndex = getParentIndex index in
        if length h \<le> index then Inl TypeError
        else if freq (h ! parentIndex) > freq (h ! index)
          then heapifyUp (swap h parentIndex index) parentIndex
          else Inr h)"
  by pat_completeness auto
termination
  by (relation "measure snd") (auto simp: getParentIndex_def)

declare heapifyUp.simps [simp del]

text \<open>
  \<^verbatim>\<open>heapifyDown\<close> reads a child only behind the test that its index is inside the
  array, and then the index itself, which is smaller: it cannot fail.
\<close>

function heapifyDown :: "MinHeap \<Rightarrow> nat \<Rightarrow> MinHeap" where
  "heapifyDown h index =
     (let leftChildIndex = getLeftChildIndex index;
          rightChildIndex = getRightChildIndex index;
          smallest = index;
          smallest = (if leftChildIndex < length h \<and> freq (h ! leftChildIndex) < freq (h ! smallest)
                      then leftChildIndex else smallest);
          smallest = (if rightChildIndex < length h \<and> freq (h ! rightChildIndex) < freq (h ! smallest)
                      then rightChildIndex else smallest)
      in if smallest \<noteq> index then heapifyDown (swap h index smallest) smallest else h)"
  by pat_completeness auto
termination
  by (relation "measure (\<lambda>(h, index). length h - index)")
     (auto simp: getLeftChildIndex_def getRightChildIndex_def swap_def Let_def split: if_splits)

declare heapifyDown.simps [simp del]

definition insert :: "MinHeap \<Rightarrow> HuffmanNode \<Rightarrow> error + MinHeap" where
  "insert h node = (let h = h @ [node] in heapifyUp h (length h - 1))"

text \<open>\<^verbatim>\<open>extractMin\<close> returns the node (or \<^verbatim>\<open>null\<close>) and leaves the heap changed.\<close>

definition extractMin :: "MinHeap \<Rightarrow> HuffmanNode option \<times> MinHeap" where
  "extractMin h =
     (if length h = 0 then (None, h)
      else if length h = 1 then (Some (last h), butlast h)
      else let min = h ! 0;
               popped = last h;
               h = butlast h;
               h = h[0 := popped]
           in (Some min, heapifyDown h 0))"


subsection \<open>The heap operations keep the nodes\<close>

lemma mset_swap_heap:
  "index1 < length h \<Longrightarrow> index2 < length h \<Longrightarrow> mset (swap h index1 index2) = mset h"
  unfolding swap_def by (rule mset_swap)

lemma mset_heapifyDown: "mset (heapifyDown h index) = mset h"
proof (induction h index rule: heapifyDown.induct)
  case (1 h index)
  show ?case
    apply (subst heapifyDown.simps)
    apply (simp only: Let_def)
    using "1.IH"
    by (auto simp: mset_swap_heap getLeftChildIndex_def getRightChildIndex_def Let_def
             split: if_splits)
qed

lemma length_heapifyDown: "length (heapifyDown h index) = length h"
  using mset_heapifyDown [of h index] by (metis size_mset)

lemma heapifyUp_Inr:
  "index < length h \<Longrightarrow> \<exists>h'. heapifyUp h index = Inr h' \<and> mset h' = mset h"
proof (induction h index rule: heapifyUp.induct)
  case (1 h index)
  show ?case
  proof (cases "index = 0")
    case True
    then show ?thesis by (simp add: heapifyUp.simps)
  next
    case False
    have p: "getParentIndex index < index"
      using False by (simp add: getParentIndex_def)
    show ?thesis
    proof (cases "freq (h ! getParentIndex index) > freq (h ! index)")
      case True
      have sw: "mset (swap h (getParentIndex index) index) = mset h"
        using p "1.prems" by (simp add: mset_swap_heap)
      have "getParentIndex index < length (swap h (getParentIndex index) index)"
        using p "1.prems" by (simp add: swap_def)
      from "1.IH" [OF False refl _ True this] "1.prems"
      obtain h' where "heapifyUp (swap h (getParentIndex index) index) (getParentIndex index) = Inr h'"
        and "mset h' = mset (swap h (getParentIndex index) index)"
        by auto
      then show ?thesis
        using False True "1.prems" sw by (subst heapifyUp.simps) simp
    next
      case nogt: False
      then show ?thesis
        using False "1.prems" by (subst heapifyUp.simps) simp
    qed
  qed
qed

lemma insert_Inr: "\<exists>h'. insert h node = Inr h' \<and> mset h' = add_mset node (mset h)"
  using heapifyUp_Inr [of "length h" "h @ [node]"] by (simp add: insert_def Let_def)

lemma insert_mset: "insert h node = Inr h' \<Longrightarrow> mset h' = add_mset node (mset h)"
  using insert_Inr [of h node] by auto

lemma insert_length: "insert h node = Inr h' \<Longrightarrow> length h' = Suc (length h)"
  using insert_mset [of h node h'] by (metis size_mset size_add_mset)

lemma extractMin_None: "extractMin h = (None, h') \<longleftrightarrow> h = [] \<and> h' = []"
  by (auto simp: extractMin_def Let_def)

lemma extractMin_mset:
  assumes "extractMin h = (Some node, h')"
  shows "mset h = add_mset node (mset h')"
proof -
  have ne: "h \<noteq> []"
    using assms by (auto simp: extractMin_def)
  then obtain x xs where h: "h = x # xs"
    by (cases h) auto
  show ?thesis
  proof (cases xs rule: rev_cases)
    case Nil
    then show ?thesis
      using assms h by (simp add: extractMin_def)
  next
    case (snoc ys y)
    then have "node = x" and "h' = heapifyDown (y # ys) 0"
      using assms h by (simp_all add: extractMin_def Let_def butlast_append)
    then show ?thesis
      using h snoc by (simp add: mset_heapifyDown)
  qed
qed

lemma extractMin_length: "extractMin h = (Some node, h') \<Longrightarrow> length h = Suc (length h')"
  using extractMin_mset [of h node h'] by (metis size_mset size_add_mset)

section \<open>Building the tree\<close>

definition createNode ::
  "jsstring option \<Rightarrow> nat \<Rightarrow> HuffmanNode option \<Rightarrow> HuffmanNode option \<Rightarrow> HuffmanNode" where
  "createNode c f l r = Node c f l r"

text \<open>
  \<^verbatim>\<open>for (const char of text) frequencies[char] = (frequencies[char] || 0) + 1\<close>
\<close>

definition countChar :: "jsstring \<Rightarrow> nat jsrecord \<Rightarrow> nat jsrecord" where
  "countChar ch freqs =
     AList.update ch ((case map_of freqs ch of None \<Rightarrow> 0 | Some n \<Rightarrow> n) + 1) freqs"

definition calculateFrequencies :: "jsstring \<Rightarrow> nat jsrecord" where
  "calculateFrequencies text = fold countChar (codePoints text) []"

text \<open>The first loop of \<^verbatim>\<open>buildHuffmanTree\<close>: one leaf per entry.\<close>

fun insertLeaves :: "MinHeap \<Rightarrow> (jsstring \<times> nat) list \<Rightarrow> error + MinHeap" where
  "insertLeaves heap [] = Inr heap"
| "insertLeaves heap ((ch, f) # entries) =
     (case insert heap (createNode (Some ch) f None None) of
        Inl e \<Rightarrow> Inl e
      | Inr heap \<Rightarrow> insertLeaves heap entries)"

text \<open>
  The body of the \<^verbatim>\<open>while (heap.size() > 1)\<close> loop. \<^verbatim>\<open>extractMin()!\<close> only
  silences the type checker: a \<^verbatim>\<open>null\<close> result would raise at \<^verbatim>\<open>left.freq\<close>.
\<close>

definition mergeTwo :: "MinHeap \<Rightarrow> error + MinHeap" where
  "mergeTwo heap =
     (case extractMin heap of
        (None, heap) \<Rightarrow> Inl TypeError
      | (Some l, heap) \<Rightarrow>
          (case extractMin heap of
             (None, heap) \<Rightarrow> Inl TypeError
           | (Some r, heap) \<Rightarrow>
               insert heap (createNode None (freq l + freq r) (Some l) (Some r))))"

lemma mergeTwo_length: "mergeTwo heap = Inr heap' \<Longrightarrow> Suc (length heap') = length heap"
  by (auto simp: mergeTwo_def split: prod.splits option.splits
           dest!: extractMin_length insert_length)

text \<open>The loop itself.\<close>

function mergeNodes :: "MinHeap \<Rightarrow> error + MinHeap" where
  "mergeNodes heap =
     (if length heap > 1 then
        (case mergeTwo heap of
           Inl e \<Rightarrow> Inl e
         | Inr heap \<Rightarrow> mergeNodes heap)
      else Inr heap)"
  by pat_completeness auto
termination
  by (relation "measure length") (auto dest: mergeTwo_length)

declare mergeNodes.simps [simp del]

definition buildHuffmanTree :: "nat jsrecord \<Rightarrow> error + HuffmanNode option" where
  "buildHuffmanTree freqs =
     (case insertLeaves [] (Object_entries freqs) of
        Inl e \<Rightarrow> Inl e
      | Inr heap \<Rightarrow>
          if length heap = 1 then
            (case extractMin heap of
               (None, heap) \<Rightarrow> Inl TypeError
             | (Some node, heap) \<Rightarrow> Inr (Some (createNode None (freq node) (Some node) None)))
          else
            (case mergeNodes heap of
               Inl e \<Rightarrow> Inl e
             | Inr heap \<Rightarrow> Inr (fst (extractMin heap))))"

section \<open>Codes, encoding, decoding\<close>

text \<open>
  \<^verbatim>\<open>generateCodes(root, code = "", codes = {})\<close> fills the one \<^verbatim>\<open>codes\<close> object along a
  depth-first walk, left before right; \<^verbatim>\<open>code || "0"\<close> replaces the empty code.
\<close>

fun generateCodes :: "HuffmanNode option \<Rightarrow> jsstring \<Rightarrow> jsstring jsrecord \<Rightarrow> jsstring jsrecord" where
  "generateCodes None code cs = cs"
| "generateCodes (Some (Node c f l r)) code cs =
     (case c of
        Some ch \<Rightarrow> AList.update ch (if code = [] then bit0 else code) cs
      | None \<Rightarrow> generateCodes r (code @ bit1) (generateCodes l (code @ bit0) cs))"

text \<open>
  \<^verbatim>\<open>text.split('').map(char => codes[char]).join('')\<close>: a missing key gives
  \<^verbatim>\<open>undefined\<close>, which \<^verbatim>\<open>join\<close> writes as the empty string.
\<close>

definition encodeText :: "jsstring \<Rightarrow> jsstring jsrecord \<Rightarrow> jsstring" where
  "encodeText text cs =
     concat (map (\<lambda>ch. case map_of cs ch of None \<Rightarrow> [] | Some code \<Rightarrow> code) (split_units text))"

text \<open>
  The loop of \<^verbatim>\<open>decodeText\<close> over the items of \<^verbatim>\<open>encoded\<close>, with the statement after
  it. \<^verbatim>\<open>current\<close> becomes \<^verbatim>\<open>null\<close> when the walk takes an absent child; the next
  read of \<^verbatim>\<open>current.char\<close> then raises.
\<close>

fun decodeLoop ::
  "HuffmanNode \<Rightarrow> jsstring list \<Rightarrow> jsstring \<Rightarrow> HuffmanNode option \<Rightarrow> error + jsstring" where
  "decodeLoop rt [] dec current =
     (case current of
        None \<Rightarrow> Inl TypeError
      | Some cur \<Rightarrow> Inr (case char cur of Some c \<Rightarrow> dec @ c | None \<Rightarrow> dec))"
| "decodeLoop rt (b # bits) dec current =
     (case current of
        None \<Rightarrow> Inl TypeError
      | Some cur \<Rightarrow>
          (case char cur of
             Some c \<Rightarrow> decodeLoop rt bits (dec @ c) (if b = bit0 then left rt else right rt)
           | None \<Rightarrow> decodeLoop rt bits dec (if b = bit0 then left cur else right cur)))"

definition decodeText :: "jsstring \<Rightarrow> HuffmanNode option \<Rightarrow> error + jsstring" where
  "decodeText enc rt =
     (case rt of
        None \<Rightarrow> Inr []
      | Some r \<Rightarrow> if enc = [] then Inr [] else decodeLoop r (codePoints enc) [] (Some r))"

section \<open>The entry point\<close>

definition huffmanEncode :: "jsstring \<Rightarrow> error + HuffmanResult" where
  "huffmanEncode text =
     (if text = [] then
        Inr \<lparr>frequencies = [], codes = [], encoded = [], decoded = [],
             compressionRatio = 0, originalSize = 0, compressedSize = 0\<rparr>
      else
        let freqs = calculateFrequencies text in
        case buildHuffmanTree freqs of
          Inl e \<Rightarrow> Inl e
        | Inr rt \<Rightarrow>
            let cs = generateCodes rt [] [];
                enc = encodeText text cs
            in case decodeText enc rt of
                 Inl e \<Rightarrow> Inl e
               | Inr dec \<Rightarrow>
                   let origSize = length text * 8;
                       compSize = length enc;
                       ratio = (if origSize > 0 then (of_nat compSize / of_nat origSize) * 100 else 0)
                   in Inr \<lparr>frequencies = freqs, codes = cs, encoded = enc,
                           decoded = dec, compressionRatio = ratio,
                           originalSize = origSize, compressedSize = compSize\<rparr>)"


section \<open>The frequency table\<close>

lemma concat_codePoints: "concat (codePoints s) = s"
  by (induction s rule: codePoints.induct) auto

lemma codePoints_eq_Nil: "codePoints s = [] \<longleftrightarrow> s = []"
  by (cases s rule: codePoints.cases) auto

text \<open>
  A text without a surrogate pair: no high surrogate is directly followed by a low one.
  On such a text the two ways of cutting it agree.
\<close>

fun surrogatePairFree :: "jsstring \<Rightarrow> bool" where
  "surrogatePairFree [] = True"
| "surrogatePairFree [c] = True"
| "surrogatePairFree (c # d # rest) =
     (\<not> (isHighSurrogate c \<and> isLowSurrogate d) \<and> surrogatePairFree (d # rest))"

lemma codePoints_surrogatePairFree: "surrogatePairFree s \<Longrightarrow> codePoints s = split_units s"
  by (induction s rule: codePoints.induct) (auto simp: split_units_def)

lemma map_of_countChar:
  "map_of (countChar ch fr) = (map_of fr)(ch \<mapsto> (case map_of fr ch of None \<Rightarrow> 0 | Some n \<Rightarrow> n) + 1)"
  by (simp add: countChar_def update_conv')

lemma keys_countChar: "fst ` set (countChar ch fr) = Set.insert ch (fst ` set fr)"
  unfolding countChar_def by (simp add: AList.dom_update)

lemma distinct_countChar: "distinct (map fst fr) \<Longrightarrow> distinct (map fst (countChar ch fr))"
  by (simp add: countChar_def distinct_update)

lemma sum_update_count:
  "distinct (map fst fr) \<Longrightarrow>
   sum_list (map snd (AList.update ch ((case map_of fr ch of None \<Rightarrow> 0 | Some n \<Rightarrow> n) + 1) fr))
     = Suc (sum_list (map snd fr))"
proof (induction fr)
  case Nil
  then show ?case by simp
next
  case (Cons p fr)
  then show ?case
    by (cases p) (auto simp: map_of_eq_None_iff split: option.splits)
qed

lemma sum_countChar:
  "distinct (map fst fr) \<Longrightarrow> sum_list (map snd (countChar ch fr)) = Suc (sum_list (map snd fr))"
  unfolding countChar_def by (rule sum_update_count)

lemma fold_countChar:
  "distinct (map fst fr) \<Longrightarrow>
   distinct (map fst (fold countChar xs fr))
   \<and> set (map fst (fold countChar xs fr)) = set (map fst fr) \<union> set xs
   \<and> sum_list (map snd (fold countChar xs fr)) = sum_list (map snd fr) + length xs"
proof (induction xs arbitrary: fr)
  case Nil
  then show ?case by simp
next
  case (Cons x xs)
  from Cons.IH [OF distinct_countChar [OF Cons.prems, of x]]
  show ?case
    by (simp add: keys_countChar sum_countChar [OF Cons.prems])
qed

lemma calculateFrequencies_distinct: "distinct (map fst (calculateFrequencies text))"
  using fold_countChar [of "[]" "codePoints text"] by (simp add: calculateFrequencies_def)

lemma calculateFrequencies_keys: "set (map fst (calculateFrequencies text)) = set (codePoints text)"
  using fold_countChar [of "[]" "codePoints text"] by (simp add: calculateFrequencies_def)

lemma calculateFrequencies_sum:
  "sum_list (map snd (calculateFrequencies text)) = length (codePoints text)"
  using fold_countChar [of "[]" "codePoints text"] by (simp add: calculateFrequencies_def)

lemma calculateFrequencies_eq_Nil: "calculateFrequencies text = [] \<longleftrightarrow> text = []"
proof -
  have "set (map fst (calculateFrequencies text)) = {} \<longleftrightarrow> set (codePoints text) = {}"
    by (simp only: calculateFrequencies_keys)
  then show ?thesis
    by (simp add: codePoints_eq_Nil)
qed

lemma mset_Object_entries: "mset (Object_entries r) = mset r"
  by (simp add: Object_entries_def)

lemma Object_entries_eq_Nil: "Object_entries r = [] \<longleftrightarrow> r = []"
proof -
  have "mset (Object_entries r) = {#} \<longleftrightarrow> mset r = {#}"
    by (simp only: mset_Object_entries)
  then show ?thesis by simp
qed

section \<open>What the tree builder returns\<close>

text \<open>The leaf that the first loop creates for an entry, and the node that a merge creates.\<close>

definition leafNode :: "jsstring \<times> nat \<Rightarrow> HuffmanNode" where
  "leafNode e = createNode (Some (fst e)) (snd e) None None"

lemma leafNode_pair: "leafNode (ch, f) = createNode (Some ch) f None None"
  by (simp add: leafNode_def)

lemma insertLeaves_Inr:
  "\<exists>h'. insertLeaves h es = Inr h' \<and> mset h' = mset h + mset (map leafNode es)"
proof (induction es arbitrary: h)
  case Nil
  then show ?case by simp
next
  case (Cons e es)
  obtain ch f where e: "e = (ch, f)"
    by (cases e)
  obtain h1 where h1: "insert h (createNode (Some ch) f None None) = Inr h1"
      "mset h1 = add_mset (createNode (Some ch) f None None) (mset h)"
    using insert_Inr by blast
  from Cons.IH [of h1] obtain h' where
    "insertLeaves h1 es = Inr h'" "mset h' = mset h1 + mset (map leafNode es)"
    by blast
  then show ?case
    using h1 by (simp add: e leafNode_pair)
qed

definition merged :: "HuffmanNode \<Rightarrow> HuffmanNode \<Rightarrow> HuffmanNode" where
  "merged l r = createNode None (freq l + freq r) (Some l) (Some r)"

lemma extractMin_Some:
  "h \<noteq> [] \<Longrightarrow> \<exists>node h'. extractMin h = (Some node, h')"
  by (cases "extractMin h") (auto simp: extractMin_def Let_def split: if_splits)

lemma mergeTwo_Inr:
  assumes "length h > 1"
  shows "\<exists>l r h1 h2 h'. extractMin h = (Some l, h1) \<and> extractMin h1 = (Some r, h2)
           \<and> insert h2 (merged l r) = Inr h' \<and> mergeTwo h = Inr h'"
proof -
  from assms have "h \<noteq> []" by auto
  then obtain l h1 where l: "extractMin h = (Some l, h1)"
    using extractMin_Some by blast
  with assms have "h1 \<noteq> []"
    using extractMin_length [OF l] by auto
  then obtain r h2 where r: "extractMin h1 = (Some r, h2)"
    using extractMin_Some by blast
  obtain h' where h': "insert h2 (merged l r) = Inr h'"
    using insert_Inr by blast
  show ?thesis
    using l r h' by (auto simp: mergeTwo_def merged_def)
qed

lemma mergeTwo_mset:
  assumes "mergeTwo h = Inr h'"
  shows "\<exists>l r M. mset h = add_mset l (add_mset r M) \<and> mset h' = add_mset (merged l r) M"
proof -
  from assms obtain l h1 r h2 where
    l: "extractMin h = (Some l, h1)" and r: "extractMin h1 = (Some r, h2)"
    and i: "insert h2 (merged l r) = Inr h'"
    by (auto simp: mergeTwo_def merged_def split: prod.splits option.splits)
  show ?thesis
    using extractMin_mset [OF l] extractMin_mset [OF r] insert_mset [OF i] by auto
qed

lemma mergeNodes_invariant:
  assumes "I h" and "h \<noteq> []"
    and step: "\<And>h h'. I h \<Longrightarrow> length h > 1 \<Longrightarrow> mergeTwo h = Inr h' \<Longrightarrow> I h'"
  shows "\<exists>rt. mergeNodes h = Inr [rt] \<and> I [rt]"
  using assms(1,2)
proof (induction h rule: mergeNodes.induct)
  case (1 heap)
  show ?case
  proof (cases "length heap > 1")
    case True
    then obtain h' where h': "mergeTwo heap = Inr h'"
      using mergeTwo_Inr by blast
    have "h' \<noteq> []"
      using mergeTwo_length [OF h'] True by auto
    moreover have "I h'"
      using step [OF "1.prems"(1) True h'] .
    ultimately obtain rt where "mergeNodes h' = Inr [rt]" "I [rt]"
      using "1.IH" [OF True h'] by blast
    then show ?thesis
      using True h' by (subst mergeNodes.simps) simp
  next
    case False
    with "1.prems"(2) obtain rt where "heap = [rt]"
      by (cases heap) auto
    then show ?thesis
      using "1.prems"(1) by (subst mergeNodes.simps) simp
  qed
qed

lemma length_Object_entries: "length (Object_entries r) = length r"
  using mset_Object_entries [of r] by (rule mset_eq_length)

lemma extractMin_single: "extractMin [n] = (Some n, [])"
  by (simp add: extractMin_def)

lemma buildHuffmanTree_single:
  "buildHuffmanTree [e] = Inr (Some (createNode None (snd e) (Some (leafNode e)) None))"
proof -
  have oe: "Object_entries [e] = [e]"
    by (simp add: Object_entries_def)
  obtain h where h: "insertLeaves [] [e] = Inr h" "mset h = mset (map leafNode [e])"
    using insertLeaves_Inr [of "[]" "[e]"] by auto
  then have "h = [leafNode e]"
    by simp
  then show ?thesis
    using h(1) by (simp add: buildHuffmanTree_def oe extractMin_single leafNode_def createNode_def)
qed

lemma buildHuffmanTree_many:
  assumes "length fs > 1"
  shows "\<exists>heap rt. insertLeaves [] (Object_entries fs) = Inr heap
           \<and> mset heap = mset (map leafNode (Object_entries fs))
           \<and> length heap = length fs
           \<and> mergeNodes heap = Inr [rt]
           \<and> buildHuffmanTree fs = Inr (Some rt)"
proof -
  obtain heap where h: "insertLeaves [] (Object_entries fs) = Inr heap"
      "mset heap = mset (map leafNode (Object_entries fs))"
    using insertLeaves_Inr [of "[]" "Object_entries fs"] by auto
  have "size (mset heap) = size (mset fs)"
    by (simp add: h(2) length_Object_entries)
  then have len: "length heap = length fs"
    by simp
  then have "heap \<noteq> []"
    using assms by auto
  then obtain rt where rt: "mergeNodes heap = Inr [rt]"
    using mergeNodes_invariant [of "\<lambda>_. True" heap] by auto
  show ?thesis
    using h rt len assms by (auto simp: buildHuffmanTree_def extractMin_single)
qed

subsection \<open>The root: an internal node whose weight is the sum of the counts\<close>

lemma mergeNodes_freq_sum:
  assumes "mergeNodes h = Inr [rt]" "h \<noteq> []"
  shows "freq rt = sum_list (map freq h)"
proof -
  have "\<exists>rt'. mergeNodes h = Inr [rt'] \<and> sum_list (map freq [rt']) = sum_list (map freq h)"
  proof (rule mergeNodes_invariant [where I = "\<lambda>h'. sum_list (map freq h') = sum_list (map freq h)"])
    fix h1 h2 assume a: "sum_list (map freq h1) = sum_list (map freq h)" "mergeTwo h1 = Inr h2"
    from mergeTwo_mset [OF a(2)] obtain l r M where
      m: "mset h1 = add_mset l (add_mset r M)" "mset h2 = add_mset (merged l r) M"
      by blast
    have "sum_mset (image_mset freq (mset h2)) = sum_mset (image_mset freq (mset h1))"
      by (simp add: m merged_def createNode_def)
    then show "sum_list (map freq h2) = sum_list (map freq h)"
      using a(1) by (simp add: sum_mset_sum_list flip: mset_map)
  qed (use assms in auto)
  with assms show ?thesis by simp
qed

lemma buildHuffmanTree_root_freq:
  assumes "fs \<noteq> []"
  shows "\<exists>rt. buildHuffmanTree fs = Inr (Some rt) \<and> char rt = None \<and> freq rt = sum_list (map snd fs)"
proof (cases "length fs > 1")
  case True
  from buildHuffmanTree_many [OF True] obtain heap rt where
    h: "mset heap = mset (map leafNode (Object_entries fs))" "length heap = length fs"
      "mergeNodes heap = Inr [rt]" "buildHuffmanTree fs = Inr (Some rt)"
    by blast
  have ne: "heap \<noteq> []"
    using h(2) True by auto
  have "image_mset freq (mset heap) = image_mset snd (mset (Object_entries fs))"
    by (simp add: h(1) image_mset.compositionality comp_def leafNode_def createNode_def)
  also have "\<dots> = image_mset snd (mset fs)"
    by (simp only: mset_Object_entries)
  finally have "sum_mset (image_mset freq (mset heap)) = sum_mset (image_mset snd (mset fs))"
    by simp
  then have "sum_list (map freq heap) = sum_list (map snd fs)"
    by (simp add: sum_mset_sum_list flip: mset_map)
  then have f: "freq rt = sum_list (map snd fs)"
    using mergeNodes_freq_sum [OF h(3) ne] by simp
  have "\<exists>rt'. mergeNodes heap = Inr [rt'] \<and> (length [rt'] = 1 \<longrightarrow> char (hd [rt']) = None)"
  proof (rule mergeNodes_invariant [where I = "\<lambda>h'. length h' = 1 \<longrightarrow> char (hd h') = None"])
    show "length heap = 1 \<longrightarrow> char (hd heap) = None"
      using h(2) True by simp
    show "heap \<noteq> []" by (rule ne)
    fix h1 h2 assume a: "mergeTwo h1 = Inr h2"
    from mergeTwo_mset [OF a] obtain l r M where
      m: "mset h2 = add_mset (merged l r) M"
      by blast
    show "length h2 = 1 \<longrightarrow> char (hd h2) = None"
    proof
      assume "length h2 = 1"
      then obtain x where x: "h2 = [x]"
        by (cases h2) auto
      with m have "x = merged l r"
        by (metis add_mset_eq_single mset.simps(1) mset.simps(2))
      then show "char (hd h2) = None"
        by (simp add: x merged_def createNode_def)
    qed
  qed
  then have "char rt = None"
    using h(3) by simp
  with f h(4) show ?thesis by simp
next
  case False
  with assms obtain e where "fs = [e]"
    by (cases fs) auto
  then show ?thesis
    by (simp add: buildHuffmanTree_single createNode_def)
qed

text \<open>
  Claim C4. For every non-empty text the tree builder returns a root, and the root's
  \<^verbatim>\<open>freq\<close> is the sum of all counts of the text's frequency table, which is the
  number of symbols of the text as the frequency count reads them (by code point); on a
  text without surrogate pairs this is \<^verbatim>\<open>text.length\<close>.
\<close>

theorem root_weight_is_input_length:
  assumes "text \<noteq> []"
  shows "\<exists>rt. buildHuffmanTree (calculateFrequencies text) = Inr (Some rt)
           \<and> freq rt = sum_list (map snd (calculateFrequencies text))
           \<and> freq rt = length (codePoints text)
           \<and> (surrogatePairFree text \<longrightarrow> freq rt = length text)"
proof -
  have "calculateFrequencies text \<noteq> []"
    using assms by (simp add: calculateFrequencies_eq_Nil)
  from buildHuffmanTree_root_freq [OF this] obtain rt where
    rt: "buildHuffmanTree (calculateFrequencies text) = Inr (Some rt)"
      "freq rt = sum_list (map snd (calculateFrequencies text))"
    by blast
  have "surrogatePairFree text \<longrightarrow> length (codePoints text) = length text"
    by (simp add: codePoints_surrogatePairFree split_units_def)
  then show ?thesis
    using rt by (auto simp: calculateFrequencies_sum)
qed

theorem root_weight_is_input_length_witness:
  "[0x61, 0x62, 0x61] \<noteq> ([] :: jsstring) \<and> surrogatePairFree [0x61, 0x62, 0x61]
   \<and> (\<exists>rt. buildHuffmanTree (calculateFrequencies [0x61, 0x62, 0x61]) = Inr (Some rt)
           \<and> freq rt = 3)"
  using root_weight_is_input_length [of "[0x61, 0x62, 0x61]"]
  by (auto simp: isHighSurrogate_def isLowSurrogate_def numeral_3_eq_3)

section \<open>The code table\<close>

fun codeList :: "HuffmanNode option \<Rightarrow> jsstring \<Rightarrow> (jsstring \<times> jsstring) list" where
  "codeList None code = []"
| "codeList (Some (Node c f l r)) code =
     (case c of
        Some ch \<Rightarrow> [(ch, if code = [] then bit0 else code)]
      | None \<Rightarrow> codeList l (code @ bit0) @ codeList r (code @ bit1))"

definition setCode :: "jsstring \<times> jsstring \<Rightarrow> jsstring jsrecord \<Rightarrow> jsstring jsrecord" where
  "setCode kv cs = AList.update (fst kv) (snd kv) cs"

lemma generateCodes_fold: "generateCodes t code cs = fold setCode (codeList t code) cs"
  by (induction t code cs rule: generateCodes.induct) (auto simp: setCode_def split: option.splits)

lemma map_of_fold_setCode: "map_of (fold setCode kvs cs) = map_of cs ++ map_of (rev kvs)"
proof (induction kvs arbitrary: cs)
  case Nil
  then show ?case by simp
next
  case (Cons kv kvs)
  have "map_of (setCode kv cs) = (map_of cs)(fst kv \<mapsto> snd kv)"
    by (simp add: setCode_def update_conv')
  then show ?case
    by (auto simp: Cons.IH map_add_def fun_eq_iff split: option.splits)
qed

lemma map_of_generateCodes:
  "map_of (generateCodes t [] []) = map_of (rev (codeList t []))"
  by (simp add: generateCodes_fold map_of_fold_setCode)

lemma generateCodes_SomeD:
  "map_of (generateCodes t [] []) k = Some c \<Longrightarrow> (k, c) \<in> set (codeList t [])"
  by (auto simp: map_of_generateCodes dest: map_of_SomeD)

lemma generateCodes_keys:
  "fst ` set (generateCodes t [] []) = fst ` set (codeList t [])"
proof -
  have "dom (map_of (generateCodes t [] [])) = dom (map_of (rev (codeList t [])))"
    by (simp only: map_of_generateCodes)
  then show ?thesis
    by (simp add: dom_map_of_conv_image_fst)
qed

subsection \<open>Codes are root-to-leaf paths\<close>

lemma codeList_prefix:
  "(k, c) \<in> set (codeList t p) \<Longrightarrow> p \<noteq> [] \<Longrightarrow> prefix p c"
proof (induction t p rule: codeList.induct)
  case (1 code)
  then show ?case by simp
next
  case (2 ch f l r code)
  show ?case
  proof (cases ch)
    case None
    with "2.prems" consider "(k, c) \<in> set (codeList l (code @ bit0))"
      | "(k, c) \<in> set (codeList r (code @ bit1))"
      by auto
    then show ?thesis
    proof cases
      case 1
      from "2.IH"(1) [OF None 1] show ?thesis
        by (auto dest: append_prefixD)
    next
      case 2
      from "2.IH"(2) [OF None 2] show ?thesis
        by (auto dest: append_prefixD)
    qed
  next
    case (Some a)
    with "2.prems" show ?thesis by simp
  qed
qed

definition unrelated :: "jsstring \<times> jsstring \<Rightarrow> jsstring \<times> jsstring \<Rightarrow> bool" where
  "unrelated x y = (\<not> prefix (snd x) (snd y) \<and> \<not> prefix (snd y) (snd x))"

lemma diverging_prefixes:
  assumes "prefix (p @ [a]) x" "prefix (p @ [b]) y" "a \<noteq> b"
  shows "\<not> prefix x y"
proof
  assume "prefix x y"
  with assms(1) have "prefix (p @ [a]) y"
    by (rule prefix_order.trans)
  with assms(2) have "prefix (p @ [a]) (p @ [b]) \<or> prefix (p @ [b]) (p @ [a])"
    using prefix_same_cases by blast
  with assms(3) show False by auto
qed

lemma codeList_unrelated: "sorted_wrt unrelated (codeList t p)"
proof (induction t p rule: codeList.induct)
  case (1 code)
  then show ?case by simp
next
  case (2 ch f l r code)
  show ?case
  proof (cases ch)
    case None
    have cross: "unrelated x y"
      if "x \<in> set (codeList l (code @ bit0))" "y \<in> set (codeList r (code @ bit1))" for x y
    proof -
      have "prefix (code @ bit0) (snd x)"
        using codeList_prefix [of "fst x" "snd x" l "code @ bit0"] that(1) by simp
      moreover have "prefix (code @ bit1) (snd y)"
        using codeList_prefix [of "fst y" "snd y" r "code @ bit1"] that(2) by simp
      ultimately show ?thesis
        unfolding unrelated_def
        using diverging_prefixes [of code "0x30" "snd x" "0x31" "snd y"]
          diverging_prefixes [of code "0x31" "snd y" "0x30" "snd x"]
        by simp
    qed
    show ?thesis
      using None "2.IH" cross by (simp add: sorted_wrt_append)
  next
    case (Some a)
    then show ?thesis by simp
  qed
qed

lemma sorted_wrt_two:
  "sorted_wrt P xs \<Longrightarrow> x \<in> set xs \<Longrightarrow> y \<in> set xs \<Longrightarrow> x \<noteq> y \<Longrightarrow> P x y \<or> P y x"
  by (induction xs) auto

lemma generateCodes_prefix_free:
  assumes "map_of (generateCodes t [] []) k1 = Some c1"
    and "map_of (generateCodes t [] []) k2 = Some c2"
    and "k1 \<noteq> k2"
  shows "\<not> prefix c1 c2"
proof -
  have "(k1, c1) \<in> set (codeList t [])" "(k2, c2) \<in> set (codeList t [])"
    using assms(1,2) by (auto dest: generateCodes_SomeD)
  then have "unrelated (k1, c1) (k2, c2) \<or> unrelated (k2, c2) (k1, c1)"
    using sorted_wrt_two [OF codeList_unrelated] assms(3) by blast
  then show ?thesis
    by (auto simp: unrelated_def)
qed

lemma codeList_bits:
  "(k, c) \<in> set (codeList t p) \<Longrightarrow> set p \<subseteq> {0x30, 0x31} \<Longrightarrow> set c \<subseteq> {0x30, 0x31}"
proof (induction t p rule: codeList.induct)
  case (1 code)
  then show ?case by simp
next
  case (2 ch f l r code)
  show ?case
  proof (cases ch)
    case None
    with "2.prems" consider "(k, c) \<in> set (codeList l (code @ bit0))"
      | "(k, c) \<in> set (codeList r (code @ bit1))"
      by auto
    then show ?thesis
    proof cases
      case 1
      from "2.IH"(1) [OF None 1] "2.prems"(2) show ?thesis by simp
    next
      case 2
      from "2.IH"(2) [OF None 2] "2.prems"(2) show ?thesis by simp
    qed
  next
    case (Some a)
    with "2.prems" show ?thesis by (auto split: if_splits)
  qed
qed

lemma codeList_nonempty: "(k, c) \<in> set (codeList t p) \<Longrightarrow> c \<noteq> []"
proof (cases "p = []")
  case False
  assume "(k, c) \<in> set (codeList t p)"
  with False have "prefix p c" by (rule codeList_prefix [rotated])
  with False show ?thesis by auto
next
  case True
  assume a: "(k, c) \<in> set (codeList t p)"
  show ?thesis
  proof (cases t)
    case None
    with a show ?thesis by simp
  next
    case (Some n)
    obtain ch f l r where n: "n = Node ch f l r" by (cases n)
    show ?thesis
    proof (cases ch)
      case None
      with a Some n True consider "(k, c) \<in> set (codeList l bit0)" | "(k, c) \<in> set (codeList r bit1)"
        by auto
      then show ?thesis
        by cases (auto dest!: codeList_prefix)
    next
      case (Some a')
      with a \<open>t = Some n\<close> n True show ?thesis by simp
    qed
  qed
qed

section \<open>The decoder on the encoder's output\<close>

lemma codePoints_no_surrogate:
  "\<forall>u \<in> set s. \<not> isHighSurrogate u \<Longrightarrow> codePoints s = split_units s"
  by (induction s rule: codePoints.induct) (auto simp: split_units_def)

lemma bits_not_surrogate: "set s \<subseteq> {0x30, 0x31} \<Longrightarrow> \<forall>u \<in> set s. \<not> isHighSurrogate u"
  by (auto simp: isHighSurrogate_def)

lemma split_units_append: "split_units (xs @ ys) = split_units xs @ split_units ys"
  by (simp add: split_units_def)

text \<open>
  From a node that is not a leaf about to be emitted, the bits of a code below it lead the
  walk to the leaf of that code, without any emission on the way.
\<close>

lemma decodeLoop_walk:
  assumes "(k, c) \<in> set (codeList t p)"
    and "p \<noteq> [] \<or> (\<forall>n. t = Some n \<longrightarrow> char n = None)"
  shows "\<exists>q leaf. c = p @ q \<and> char leaf = Some k
           \<and> (\<forall>rest dec. decodeLoop rt (split_units q @ rest) dec t = decodeLoop rt rest dec (Some leaf))"
  using assms
proof (induction t p rule: codeList.induct)
  case (1 code)
  then show ?case by simp
next
  case (2 ch f l r code)
  show ?case
  proof (cases ch)
    case (Some a)
    with "2.prems" have "k = a" "c = code" "code \<noteq> []"
      by (auto split: if_splits)
    then show ?thesis
      using Some by (intro exI [of _ "[]"] exI [of _ "Node ch f l r"]) (simp add: split_units_def)
  next
    case None
    with "2.prems" consider (L) "(k, c) \<in> set (codeList l (code @ bit0))"
      | (R) "(k, c) \<in> set (codeList r (code @ bit1))"
      by auto
    then show ?thesis
    proof cases
      case L
      from "2.IH"(1) [OF None L] obtain q leaf where
        q: "c = (code @ bit0) @ q" "char leaf = Some k"
          "\<And>rest dec. decodeLoop rt (split_units q @ rest) dec l = decodeLoop rt rest dec (Some leaf)"
        by auto
      show ?thesis
        using q None
        by (intro exI [of _ "bit0 @ q"] exI [of _ leaf]) (simp add: split_units_def)
    next
      case R
      from "2.IH"(2) [OF None R] obtain q leaf where
        q: "c = (code @ bit1) @ q" "char leaf = Some k"
          "\<And>rest dec. decodeLoop rt (split_units q @ rest) dec r = decodeLoop rt rest dec (Some leaf)"
        by auto
      show ?thesis
        using q None
        by (intro exI [of _ "bit1 @ q"] exI [of _ leaf]) (simp add: split_units_def)
    qed
  qed
qed

lemma decodeLoop_leaf_step:
  assumes "char leaf = Some k" "char rt = None" "bits \<noteq> []"
  shows "decodeLoop rt bits dec (Some leaf) = decodeLoop rt bits (dec @ k) (Some rt)"
  using assms by (cases bits) auto

lemma decodeLoop_codes:
  assumes "char rt = None"
    and "\<forall>k \<in> set ks. (k, cf k) \<in> set (codeList (Some rt) [])"
    and "ks \<noteq> []"
  shows "decodeLoop rt (split_units (concat (map cf ks))) dec (Some rt) = Inr (dec @ concat ks)"
  using assms(2,3)
proof (induction ks arbitrary: dec)
  case Nil
  then show ?case by simp
next
  case (Cons k ks)
  have kc: "(k, cf k) \<in> set (codeList (Some rt) [])"
    using Cons.prems(1) by simp
  from decodeLoop_walk [OF kc, of rt] assms(1) obtain q leaf where
    q: "cf k = q" "char leaf = Some k"
      "\<And>rest dec. decodeLoop rt (split_units q @ rest) dec (Some rt) = decodeLoop rt rest dec (Some leaf)"
    by auto
  let ?rest = "split_units (concat (map cf ks))"
  have first: "decodeLoop rt (split_units (concat (map cf (k # ks)))) dec (Some rt)
      = decodeLoop rt ?rest dec (Some leaf)"
    using q(3) [of ?rest dec] by (simp add: q(1) split_units_append)
  show ?case
  proof (cases "ks = []")
    case True
    then show ?thesis
      using first q(2) by (simp add: split_units_def)
  next
    case False
    then obtain k' ks' where ks: "ks = k' # ks'"
      by (cases ks) auto
    have "(k', cf k') \<in> set (codeList (Some rt) [])"
      using Cons.prems(1) ks by simp
    then have "cf k' \<noteq> []"
      by (rule codeList_nonempty)
    then have "?rest \<noteq> []"
      by (simp add: ks split_units_def)
    then have "decodeLoop rt ?rest dec (Some leaf) = decodeLoop rt ?rest (dec @ k) (Some rt)"
      using decodeLoop_leaf_step [OF q(2) assms(1)] by blast
    also have "\<dots> = Inr ((dec @ k) @ concat ks)"
      using Cons.IH [of "dec @ k"] Cons.prems(1) False by simp
    finally show ?thesis
      using first by simp
  qed
qed

text \<open>What \<^verbatim>\<open>encodeText\<close> writes: the codes of those code units that are keys.\<close>

definition theCode :: "jsstring jsrecord \<Rightarrow> jsstring \<Rightarrow> jsstring" where
  "theCode cs ch = (case map_of cs ch of None \<Rightarrow> [] | Some code \<Rightarrow> code)"

definition knownUnits :: "jsstring \<Rightarrow> jsstring jsrecord \<Rightarrow> jsstring list" where
  "knownUnits text cs = filter (\<lambda>ch. map_of cs ch \<noteq> None) (split_units text)"

lemma concat_map_filter_code:
  "concat (map (theCode cs) xs) = concat (map (theCode cs) (filter (\<lambda>ch. map_of cs ch \<noteq> None) xs))"
  by (induction xs) (auto simp: theCode_def)

lemma encodeText_known: "encodeText text cs = concat (map (theCode cs) (knownUnits text cs))"
proof -
  have "encodeText text cs = concat (map (theCode cs) (split_units text))"
    by (simp add: encodeText_def theCode_def [abs_def])
  then show ?thesis
    unfolding knownUnits_def using concat_map_filter_code [of cs "split_units text"] by simp
qed

lemma encodeText_bits:
  "set (encodeText text (generateCodes t [] [])) \<subseteq> {0x30, 0x31}"
proof -
  have "set (theCode (generateCodes t [] []) ch) \<subseteq> {0x30, 0x31}" for ch
  proof (cases "map_of (generateCodes t [] []) ch")
    case None
    then show ?thesis by (simp add: theCode_def)
  next
    case (Some c)
    then have "(ch, c) \<in> set (codeList t [])"
      by (rule generateCodes_SomeD)
    then have "set c \<subseteq> {0x30, 0x31}"
      by (rule codeList_bits) simp
    then show ?thesis
      using Some by (simp add: theCode_def)
  qed
  then show ?thesis
    by (auto simp: encodeText_known)
qed

lemma decodeText_encodeText:
  assumes "char rt = None"
  shows "decodeText (encodeText text (generateCodes (Some rt) [] [])) (Some rt)
           = Inr (concat (knownUnits text (generateCodes (Some rt) [] [])))"
proof -
  let ?cs = "generateCodes (Some rt) [] []"
  let ?ks = "knownUnits text ?cs"
  show ?thesis
  proof (cases "?ks = []")
    case True
    then show ?thesis
      by (simp add: encodeText_known decodeText_def)
  next
    case False
    have mem: "\<forall>k \<in> set ?ks. (k, theCode ?cs k) \<in> set (codeList (Some rt) [])"
      by (auto simp: knownUnits_def theCode_def dest: generateCodes_SomeD)
    have cp: "codePoints (encodeText text ?cs) = split_units (encodeText text ?cs)"
      using encodeText_bits [of "text" "Some rt"]
      by (intro codePoints_no_surrogate bits_not_surrogate)
    have "decodeLoop rt (split_units (encodeText text ?cs)) [] (Some rt) = Inr ([] @ concat ?ks)"
      unfolding encodeText_known
      by (rule decodeLoop_codes [OF assms mem False])
    moreover have "encodeText text ?cs \<noteq> []"
    proof -
      from False obtain k where k: "k \<in> set ?ks"
        by (cases ?ks) auto
      with mem have "theCode ?cs k \<noteq> []"
        by (auto dest: codeList_nonempty)
      with k show ?thesis
        unfolding encodeText_known by auto
    qed
    ultimately show ?thesis
      by (simp add: decodeText_def cp)
  qed
qed

section \<open>The result of the entry point\<close>

fun leaves :: "HuffmanNode option \<Rightarrow> (jsstring \<times> nat) list" where
  "leaves None = []"
| "leaves (Some (Node c f l r)) =
     (case c of Some ch \<Rightarrow> [(ch, f)] | None \<Rightarrow> leaves l @ leaves r)"

lemma codeList_keys: "map fst (codeList t p) = map fst (leaves t)"
  by (induction t p rule: codeList.induct) (auto split: option.splits)

lemma leaves_leafNode: "leaves (Some (leafNode e)) = [e]"
  by (simp add: leafNode_def createNode_def)

lemma leaves_merged: "leaves (Some (merged l r)) = leaves (Some l) @ leaves (Some r)"
  by (simp add: merged_def createNode_def)

definition forestLeaves :: "MinHeap \<Rightarrow> (jsstring \<times> nat) multiset" where
  "forestLeaves h = (\<Sum>n \<in># mset h. mset (leaves (Some n)))"

lemma sum_mset_singletons: "(\<Sum>x \<in># M. {#x#}) = M"
  by (induction M) auto

lemma forestLeaves_initial:
  assumes "mset h = mset (map leafNode es)"
  shows "forestLeaves h = mset es"
proof -
  have "forestLeaves h = (\<Sum>e \<in># mset es. mset (leaves (Some (leafNode e))))"
    by (simp add: forestLeaves_def assms image_mset.compositionality comp_def)
  then show ?thesis
    by (simp add: leaves_leafNode sum_mset_singletons)
qed

lemma forestLeaves_mergeTwo:
  assumes "mergeTwo h = Inr h'"
  shows "forestLeaves h' = forestLeaves h"
proof -
  from mergeTwo_mset [OF assms] obtain l r M where
    "mset h = add_mset l (add_mset r M)" "mset h' = add_mset (merged l r) M"
    by blast
  then show ?thesis
    by (simp add: forestLeaves_def leaves_merged)
qed

lemma buildHuffmanTree_leaves:
  assumes "fs \<noteq> []"
  shows "\<exists>rt. buildHuffmanTree fs = Inr (Some rt) \<and> mset (leaves (Some rt)) = mset fs"
proof (cases "length fs > 1")
  case True
  from buildHuffmanTree_many [OF True] obtain heap rt where
    h: "mset heap = mset (map leafNode (Object_entries fs))" "length heap = length fs"
      "mergeNodes heap = Inr [rt]" "buildHuffmanTree fs = Inr (Some rt)"
    by blast
  have ne: "heap \<noteq> []"
    using h(2) True by auto
  have init: "forestLeaves heap = mset fs"
    using forestLeaves_initial [OF h(1)] by (simp add: mset_Object_entries)
  have "\<exists>rt'. mergeNodes heap = Inr [rt'] \<and> forestLeaves [rt'] = mset fs"
    by (rule mergeNodes_invariant [where I = "\<lambda>h'. forestLeaves h' = mset fs"])
       (use init ne in \<open>auto simp: forestLeaves_mergeTwo\<close>)
  then have "forestLeaves [rt] = mset fs"
    using h(3) by simp
  then show ?thesis
    using h(4) by (simp add: forestLeaves_def)
next
  case False
  with assms obtain e where "fs = [e]"
    by (cases fs) auto
  then show ?thesis
    by (simp add: buildHuffmanTree_single createNode_def leaves_leafNode)
qed

lemma buildHuffmanTree_root:
  assumes "fs \<noteq> []"
  shows "\<exists>rt. buildHuffmanTree fs = Inr (Some rt) \<and> char rt = None
           \<and> freq rt = sum_list (map snd fs) \<and> mset (leaves (Some rt)) = mset fs"
  using buildHuffmanTree_root_freq [OF assms] buildHuffmanTree_leaves [OF assms] by auto

lemma generateCodes_keys_built:
  assumes "mset (leaves t) = mset fs"
  shows "fst ` set (generateCodes t [] []) = fst ` set fs"
proof -
  have "fst ` set (generateCodes t [] []) = set (map fst (codeList t []))"
    by (simp add: generateCodes_keys)
  also have "\<dots> = set (map fst (leaves t))"
    by (simp only: codeList_keys)
  also have "\<dots> = fst ` set_mset (mset (leaves t))"
    by simp
  also have "\<dots> = fst ` set fs"
    by (simp only: assms set_mset_mset)
  finally show ?thesis .
qed

text \<open>The result of the entry point on a non-empty text, field by field.\<close>

definition symbolUnits :: "jsstring \<Rightarrow> jsstring list" where
  "symbolUnits text = filter (\<lambda>ch. ch \<in> set (codePoints text)) (split_units text)"

lemma huffmanEncode_nonempty:
  assumes "text \<noteq> []"
  shows "\<exists>rt. buildHuffmanTree (calculateFrequencies text) = Inr (Some rt)
           \<and> char rt = None
           \<and> mset (leaves (Some rt)) = mset (calculateFrequencies text)
           \<and> huffmanEncode text =
               Inr \<lparr>frequencies = calculateFrequencies text,
                    codes = generateCodes (Some rt) [] [],
                    encoded = encodeText text (generateCodes (Some rt) [] []),
                    decoded = concat (symbolUnits text),
                    compressionRatio =
                      of_nat (length (encodeText text (generateCodes (Some rt) [] [])))
                        / of_nat (length text * 8) * 100,
                    originalSize = length text * 8,
                    compressedSize = length (encodeText text (generateCodes (Some rt) [] []))\<rparr>"
proof -
  let ?fs = "calculateFrequencies text"
  have "?fs \<noteq> []"
    using assms by (simp add: calculateFrequencies_eq_Nil)
  from buildHuffmanTree_root [OF this] obtain rt where
    rt: "buildHuffmanTree ?fs = Inr (Some rt)" "char rt = None"
      "mset (leaves (Some rt)) = mset ?fs"
    by blast
  let ?cs = "generateCodes (Some rt) [] []"
  have keys: "fst ` set ?cs = set (codePoints text)"
    using generateCodes_keys_built [OF rt(3)] calculateFrequencies_keys [of "text"] by simp
  have "knownUnits text ?cs = symbolUnits text"
    unfolding knownUnits_def symbolUnits_def keys [symmetric]
    by (simp add: dom_map_of_conv_image_fst [symmetric] domIff)
  then have dec: "decodeText (encodeText text ?cs) (Some rt) = Inr (concat (symbolUnits text))"
    using decodeText_encodeText [OF rt(2), of "text"] by simp
  have "huffmanEncode text =
          Inr \<lparr>frequencies = ?fs, codes = ?cs, encoded = encodeText text ?cs,
               decoded = concat (symbolUnits text),
               compressionRatio = of_nat (length (encodeText text ?cs)) / of_nat (length text * 8) * 100,
               originalSize = length text * 8,
               compressedSize = length (encodeText text ?cs)\<rparr>"
    using assms by (simp add: huffmanEncode_def Let_def rt(1) dec)
  with rt show ?thesis by blast
qed

lemma symbolUnits_surrogatePairFree:
  "surrogatePairFree text \<Longrightarrow> symbolUnits text = split_units text"
  by (simp add: symbolUnits_def codePoints_surrogatePairFree)

lemma concat_split_units: "concat (split_units text) = text"
  by (simp add: split_units_def)

text \<open>
  On a text without surrogate pairs the engine round-trips, and every code unit that
  \<^verbatim>\<open>encodeText\<close> looks up is a key of the code table.
\<close>

lemma roundtrip_surrogatePairFree:
  assumes "text \<noteq> []" "surrogatePairFree text"
  shows "\<exists>r. huffmanEncode text = Inr r \<and> decoded r = text"
  using huffmanEncode_nonempty [OF assms(1)]
  by (auto simp: symbolUnits_surrogatePairFree [OF assms(2)] concat_split_units)

lemma lookup_surrogatePairFree:
  assumes "text \<noteq> []" "surrogatePairFree text" "ch \<in> set (split_units text)"
  shows "\<exists>r code. huffmanEncode text = Inr r \<and> map_of (codes r) ch = Some code"
proof -
  from huffmanEncode_nonempty [OF assms(1)] obtain rt r where
    rt: "mset (leaves (Some rt)) = mset (calculateFrequencies text)"
    and r: "huffmanEncode text = Inr r" "codes r = generateCodes (Some rt) [] []"
    by auto
  have "fst ` set (codes r) = set (codePoints text)"
    using generateCodes_keys_built [OF rt] calculateFrequencies_keys [of "text"] r(2) by simp
  with assms(2,3) have "ch \<in> dom (map_of (codes r))"
    by (simp add: dom_map_of_conv_image_fst codePoints_surrogatePairFree)
  with r(1) show ?thesis by auto
qed

section \<open>Totality and prefix-freeness\<close>

text \<open>
  Claim C6. \<^verbatim>\<open>huffmanEncode\<close> is total: on every string, the empty one included, it
  returns a result; no TypeError of the heap, of the tree builder or of the decoder is
  reachable from it.
\<close>

theorem huffmanEncode_total: "\<exists>r. huffmanEncode text = Inr r"
proof (cases "text = []")
  case True
  then show ?thesis by (simp add: huffmanEncode_def)
next
  case False
  from huffmanEncode_nonempty [OF False] show ?thesis by blast
qed

text \<open>
  Claim C3. For every text the generated code table is prefix-free: the codes of two
  different symbols are such that neither is a prefix of the other (so they are also
  different).
\<close>

theorem codes_prefix_free:
  "\<exists>r. huffmanEncode text = Inr r
     \<and> (\<forall>k1 k2 c1 c2. map_of (codes r) k1 = Some c1 \<and> map_of (codes r) k2 = Some c2 \<and> k1 \<noteq> k2
           \<longrightarrow> \<not> prefix c1 c2 \<and> \<not> prefix c2 c1)"
proof (cases "text = []")
  case True
  then show ?thesis by (simp add: huffmanEncode_def)
next
  case False
  from huffmanEncode_nonempty [OF False] obtain rt r where
    r: "huffmanEncode text = Inr r" "codes r = generateCodes (Some rt) [] []"
    by auto
  show ?thesis
    using r generateCodes_prefix_free [of "Some rt"] by (intro exI [of _ r]) (simp, metis)
qed

theorem codes_prefix_free_witness:
  "huffmanEncode [0x61, 0x62]
     = Inr \<lparr>frequencies = [([0x61], 1), ([0x62], 1)], codes = [([0x61], [0x30]), ([0x62], [0x31])],
            encoded = [0x30, 0x31], decoded = [0x61, 0x62],
            compressionRatio = 25 / 2, originalSize = 16, compressedSize = 2\<rparr>
   \<and> map_of [([0x61], [0x30]), ([0x62], [0x31 :: code_unit])] [0x61 :: code_unit] = Some [0x30]
   \<and> map_of [([0x61], [0x30]), ([0x62], [0x31 :: code_unit])] [0x62 :: code_unit] = Some [0x31]
   \<and> [0x61 :: code_unit] \<noteq> [0x62]
   \<and> \<not> prefix [0x30 :: code_unit] [0x31] \<and> \<not> prefix [0x31 :: code_unit] [0x30]"
proof -
  have e: "huffmanEncode [0x61, 0x62]
     = Inr \<lparr>frequencies = [([0x61], 1), ([0x62], 1)], codes = [([0x61], [0x30]), ([0x62], [0x31])],
            encoded = [0x30, 0x31], decoded = [0x61, 0x62],
            compressionRatio = 25 / 2, originalSize = 16, compressedSize = 2\<rparr>"
    by code_simp
  from codes_prefix_free [of "[0x61, 0x62]"] obtain r where
    r: "huffmanEncode [0x61, 0x62] = Inr r"
      "\<And>k1 k2 c1 c2. map_of (codes r) k1 = Some c1 \<Longrightarrow> map_of (codes r) k2 = Some c2 \<Longrightarrow> k1 \<noteq> k2
         \<Longrightarrow> \<not> prefix c1 c2 \<and> \<not> prefix c2 c1"
    by blast
  from r(1) e have c: "codes r = [([0x61], [0x30]), ([0x62], [0x31])]"
    by auto
  have "\<not> prefix [0x30 :: code_unit] [0x31] \<and> \<not> prefix [0x31 :: code_unit] [0x30]"
    by (rule r(2) [of "[0x61]" _ "[0x62]"]) (simp_all add: c)
  with e show ?thesis by simp
qed

section \<open>Two invocations: the objects in a store\<close>

text \<open>
  Whether a second invocation can see anything of the first is a question about the
  objects that the engine allocates and mutates in place: the \<^verbatim>\<open>MinHeap\<close> instance with
  its array, the \<^verbatim>\<open>frequencies\<close> object and the \<^verbatim>\<open>codes\<close> object. Here they live
  in a store, at addresses; \<^verbatim>\<open>new MinHeap()\<close> and the object literal \<^verbatim>\<open>{}\<close> take the
  next free address and initialise what is there, the methods read and write the field of
  \<^verbatim>\<open>this\<close>, and whatever an invocation has allocated stays in the store when it
  returns. Nodes are never mutated after \<^verbatim>\<open>createNode\<close>, so they stay values.
\<close>

record store =
  arrays :: "nat \<Rightarrow> HuffmanNode list"
  numberRecords :: "nat \<Rightarrow> nat jsrecord"
  stringRecords :: "nat \<Rightarrow> jsstring jsrecord"
  nextAddr :: nat

text \<open>\<^verbatim>\<open>new MinHeap()\<close>, with the field initialiser \<^verbatim>\<open>heap: HuffmanNode[] = []\<close>.\<close>

definition newMinHeap :: "store \<Rightarrow> nat \<times> store" where
  "newMinHeap s =
     (nextAddr s, s\<lparr>arrays := (arrays s)(nextAddr s := []), nextAddr := Suc (nextAddr s)\<rparr>)"

text \<open>The literal \<^verbatim>\<open>{}\<close>, as a \<^verbatim>\<open>Record<string, number>\<close> and as a \<^verbatim>\<open>Record<string, string>\<close>.\<close>

definition newNumberRecord :: "store \<Rightarrow> nat \<times> store" where
  "newNumberRecord s =
     (nextAddr s, s\<lparr>numberRecords := (numberRecords s)(nextAddr s := []), nextAddr := Suc (nextAddr s)\<rparr>)"

definition newStringRecord :: "store \<Rightarrow> nat \<times> store" where
  "newStringRecord s =
     (nextAddr s, s\<lparr>stringRecords := (stringRecords s)(nextAddr s := []), nextAddr := Suc (nextAddr s)\<rparr>)"

text \<open>
  The public methods of \<^verbatim>\<open>MinHeap\<close> on the object at address \<open>self\<close>: each reads
  \<^verbatim>\<open>this.heap\<close>, does to it what the functions of the section on the heap do, and writes
  it back.
\<close>

definition insert_obj :: "nat \<Rightarrow> HuffmanNode \<Rightarrow> store \<Rightarrow> error + store" where
  "insert_obj self node s =
     (case insert (arrays s self) node of
        Inl e \<Rightarrow> Inl e
      | Inr h \<Rightarrow> Inr (s\<lparr>arrays := (arrays s)(self := h)\<rparr>))"

definition extractMin_obj :: "nat \<Rightarrow> store \<Rightarrow> HuffmanNode option \<times> store" where
  "extractMin_obj self s =
     (case extractMin (arrays s self) of
        (res, h) \<Rightarrow> (res, s\<lparr>arrays := (arrays s)(self := h)\<rparr>))"

definition size_obj :: "nat \<Rightarrow> store \<Rightarrow> nat" where
  "size_obj self s = length (arrays s self)"

text \<open>\<^verbatim>\<open>calculateFrequencies\<close>: a fresh object, one update of it per symbol.\<close>

definition countChar_obj :: "nat \<Rightarrow> jsstring \<Rightarrow> store \<Rightarrow> store" where
  "countChar_obj freqs ch s =
     s\<lparr>numberRecords := (numberRecords s)(freqs := countChar ch (numberRecords s freqs))\<rparr>"

definition calculateFrequencies_obj :: "jsstring \<Rightarrow> store \<Rightarrow> nat \<times> store" where
  "calculateFrequencies_obj text s =
     (case newNumberRecord s of
        (freqs, s) \<Rightarrow> (freqs, fold (countChar_obj freqs) (codePoints text) s))"

text \<open>\<^verbatim>\<open>buildHuffmanTree\<close>: a fresh heap, the two loops on it, the last extraction.\<close>

fun insertLeaves_obj :: "nat \<Rightarrow> (jsstring \<times> nat) list \<Rightarrow> store \<Rightarrow> error + store" where
  "insertLeaves_obj heap [] s = Inr s"
| "insertLeaves_obj heap ((ch, f) # entries) s =
     (case insert_obj heap (createNode (Some ch) f None None) s of
        Inl e \<Rightarrow> Inl e
      | Inr s \<Rightarrow> insertLeaves_obj heap entries s)"

definition mergeTwo_obj :: "nat \<Rightarrow> store \<Rightarrow> error + store" where
  "mergeTwo_obj heap s =
     (case extractMin_obj heap s of
        (None, s) \<Rightarrow> Inl TypeError
      | (Some l, s) \<Rightarrow>
          (case extractMin_obj heap s of
             (None, s) \<Rightarrow> Inl TypeError
           | (Some r, s) \<Rightarrow>
               insert_obj heap (createNode None (freq l + freq r) (Some l) (Some r)) s))"

lemma mergeTwo_obj_eq:
  "mergeTwo_obj heap s =
     (case mergeTwo (arrays s heap) of
        Inl e \<Rightarrow> Inl e
      | Inr h \<Rightarrow> Inr (s\<lparr>arrays := (arrays s)(heap := h)\<rparr>))"
  by (simp add: mergeTwo_obj_def mergeTwo_def extractMin_obj_def insert_obj_def
           split: prod.splits option.splits sum.splits)

lemma mergeTwo_obj_length:
  "mergeTwo_obj heap s = Inr s' \<Longrightarrow> Suc (length (arrays s' heap)) = length (arrays s heap)"
  by (auto simp: mergeTwo_obj_eq split: sum.splits dest: mergeTwo_length)

function mergeNodes_obj :: "nat \<Rightarrow> store \<Rightarrow> error + store" where
  "mergeNodes_obj heap s =
     (if size_obj heap s > 1 then
        (case mergeTwo_obj heap s of
           Inl e \<Rightarrow> Inl e
         | Inr s \<Rightarrow> mergeNodes_obj heap s)
      else Inr s)"
  by pat_completeness auto
termination
  by (relation "measure (\<lambda>(heap, s). length (arrays s heap))")
     (auto dest: mergeTwo_obj_length)

declare mergeNodes_obj.simps [simp del]

definition buildHuffmanTree_obj :: "nat \<Rightarrow> store \<Rightarrow> error + HuffmanNode option \<times> store" where
  "buildHuffmanTree_obj freqs s =
     (case newMinHeap s of
        (heap, s) \<Rightarrow>
          (case insertLeaves_obj heap (Object_entries (numberRecords s freqs)) s of
             Inl e \<Rightarrow> Inl e
           | Inr s \<Rightarrow>
               if size_obj heap s = 1 then
                 (case extractMin_obj heap s of
                    (None, s) \<Rightarrow> Inl TypeError
                  | (Some node, s) \<Rightarrow> Inr (Some (createNode None (freq node) (Some node) None), s))
               else
                 (case mergeNodes_obj heap s of
                    Inl e \<Rightarrow> Inl e
                  | Inr s \<Rightarrow> Inr (extractMin_obj heap s))))"

text \<open>
  \<^verbatim>\<open>generateCodes\<close> writes into the one \<^verbatim>\<open>codes\<close> object that all its recursive calls
  share; the results of the recursive calls are not used.
\<close>

fun generateCodes_obj :: "HuffmanNode option \<Rightarrow> jsstring \<Rightarrow> nat \<Rightarrow> store \<Rightarrow> store" where
  "generateCodes_obj None code cs s = s"
| "generateCodes_obj (Some (Node c f l r)) code cs s =
     (case c of
        Some ch \<Rightarrow>
          s\<lparr>stringRecords := (stringRecords s)
               (cs := AList.update ch (if code = [] then bit0 else code) (stringRecords s cs))\<rparr>
      | None \<Rightarrow> generateCodes_obj r (code @ bit1) cs (generateCodes_obj l (code @ bit0) cs s))"

text \<open>
  \<^verbatim>\<open>huffmanEncode\<close>. The call \<^verbatim>\<open>generateCodes(root)\<close> evaluates the default
  \<^verbatim>\<open>codes = {}\<close> anew. The result holds the two objects; they are returned here by
  content, as the store has them at the return.
\<close>

definition huffmanEncode_obj :: "jsstring \<Rightarrow> store \<Rightarrow> error + HuffmanResult \<times> store" where
  "huffmanEncode_obj text s =
     (if text = [] then
        (case newNumberRecord s of
           (freqs, s) \<Rightarrow>
             (case newStringRecord s of
                (cs, s) \<Rightarrow>
                  Inr (\<lparr>frequencies = numberRecords s freqs, codes = stringRecords s cs,
                        encoded = [], decoded = [],
                        compressionRatio = 0, originalSize = 0, compressedSize = 0\<rparr>, s)))
      else
        (case calculateFrequencies_obj text s of
           (freqs, s) \<Rightarrow>
             (case buildHuffmanTree_obj freqs s of
                Inl e \<Rightarrow> Inl e
              | Inr (rt, s) \<Rightarrow>
                  (case newStringRecord s of
                     (cs, s) \<Rightarrow>
                       let s = generateCodes_obj rt [] cs s;
                           enc = encodeText text (stringRecords s cs)
                       in case decodeText enc rt of
                            Inl e \<Rightarrow> Inl e
                          | Inr dec \<Rightarrow>
                              let origSize = length text * 8;
                                  compSize = length enc;
                                  ratio = (if origSize > 0 then (of_nat compSize / of_nat origSize) * 100 else 0)
                              in Inr (\<lparr>frequencies = numberRecords s freqs, codes = stringRecords s cs,
                                       encoded = enc, decoded = dec, compressionRatio = ratio,
                                       originalSize = origSize, compressedSize = compSize\<rparr>, s)))))"

subsection \<open>What an invocation reads of the store\<close>

lemma fun_upd_as_if: "(\<lambda>a. if a = x then v else f a) = f(x := v)"
  by (rule ext) simp

lemma fold_countChar_obj:
  "fold (countChar_obj freqs) xs s =
     s\<lparr>numberRecords := (numberRecords s)(freqs := fold countChar xs (numberRecords s freqs))\<rparr>"
  by (induction xs arbitrary: s) (simp_all add: countChar_obj_def)

lemma calculateFrequencies_obj_eq:
  "calculateFrequencies_obj text s =
     (nextAddr s,
      s\<lparr>numberRecords := (numberRecords s)(nextAddr s := calculateFrequencies text),
        nextAddr := Suc (nextAddr s)\<rparr>)"
  by (simp add: calculateFrequencies_obj_def newNumberRecord_def fold_countChar_obj
        calculateFrequencies_def)

lemma insertLeaves_obj_eq:
  "insertLeaves_obj heap es s =
     (case insertLeaves (arrays s heap) es of
        Inl e \<Rightarrow> Inl e
      | Inr h \<Rightarrow> Inr (s\<lparr>arrays := (arrays s)(heap := h)\<rparr>))"
proof (induction es arbitrary: s)
  case Nil
  then show ?case by simp
next
  case (Cons e es)
  obtain ch f where e: "e = (ch, f)" by (cases e)
  show ?case
    by (simp add: e insert_obj_def Cons.IH fun_upd_as_if split: sum.splits)
qed

lemma mergeNodes_obj_eq:
  "mergeNodes_obj heap s =
     (case mergeNodes (arrays s heap) of
        Inl e \<Rightarrow> Inl e
      | Inr h \<Rightarrow> Inr (s\<lparr>arrays := (arrays s)(heap := h)\<rparr>))"
proof (induction heap s rule: mergeNodes_obj.induct)
  case (1 heap s)
  show ?case
  proof (cases "length (arrays s heap) > 1")
    case True
    show ?thesis
    proof (cases "mergeTwo (arrays s heap)")
      case (Inl e)
      then show ?thesis
        using True
        by (subst mergeNodes_obj.simps, subst mergeNodes.simps)
           (simp add: size_obj_def mergeTwo_obj_eq)
    next
      case (Inr h)
      then have m: "mergeTwo_obj heap s = Inr (s\<lparr>arrays := (arrays s)(heap := h)\<rparr>)"
        by (simp add: mergeTwo_obj_eq)
      have "size_obj heap s > 1"
        using True by (simp add: size_obj_def)
      from "1.IH" [OF this m] show ?thesis
        using True Inr m
        by (subst mergeNodes_obj.simps, subst mergeNodes.simps)
           (simp add: size_obj_def split: sum.splits)
    qed
  next
    case False
    then show ?thesis
      by (subst mergeNodes_obj.simps, subst mergeNodes.simps) (simp add: size_obj_def)
  qed
qed

lemma generateCodes_obj_eq:
  "generateCodes_obj t code cs s =
     s\<lparr>stringRecords := (stringRecords s)(cs := generateCodes t code (stringRecords s cs))\<rparr>"
  by (induction t code cs s rule: generateCodes_obj.induct)
     (auto split: option.splits intro!: store.equality simp: fun_eq_iff)

lemma buildHuffmanTree_obj_Inr:
  assumes "buildHuffmanTree (numberRecords s freqs) = Inr rt"
  shows "\<exists>s'. buildHuffmanTree_obj freqs s = Inr (rt, s')
           \<and> numberRecords s' = numberRecords s \<and> stringRecords s' = stringRecords s
           \<and> nextAddr s' = Suc (nextAddr s)"
  using assms
  by (auto simp: buildHuffmanTree_obj_def buildHuffmanTree_def newMinHeap_def
        insertLeaves_obj_eq mergeNodes_obj_eq size_obj_def extractMin_obj_def
      split: sum.splits prod.splits option.splits if_splits)

text \<open>
  From any store the invocation returns what the function \<^const>\<open>huffmanEncode\<close> of the
  text alone returns, and it leaves the store with more objects in it.
\<close>

lemma huffmanEncode_obj_Inr:
  assumes "huffmanEncode text = Inr r"
  shows "\<exists>s'. huffmanEncode_obj text s = Inr (r, s') \<and> nextAddr s < nextAddr s'"
proof (cases "text = []")
  case True
  with assms show ?thesis
    by (auto simp: huffmanEncode_obj_def huffmanEncode_def newNumberRecord_def newStringRecord_def)
next
  case False
  let ?s1 = "s\<lparr>numberRecords := (numberRecords s)(nextAddr s := calculateFrequencies text),
                nextAddr := Suc (nextAddr s)\<rparr>"
  from assms False obtain rt where rt: "buildHuffmanTree (calculateFrequencies text) = Inr rt"
    by (auto simp: huffmanEncode_def Let_def split: sum.splits)
  then have "buildHuffmanTree (numberRecords ?s1 (nextAddr s)) = Inr rt"
    by simp
  from buildHuffmanTree_obj_Inr [OF this] obtain s2 where
    s2: "buildHuffmanTree_obj (nextAddr s) ?s1 = Inr (rt, s2)"
      "numberRecords s2 = numberRecords ?s1" "stringRecords s2 = stringRecords ?s1"
      "nextAddr s2 = Suc (nextAddr ?s1)"
    by blast
  show ?thesis
    using assms False rt s2
    by (auto simp: huffmanEncode_obj_def huffmanEncode_def calculateFrequencies_obj_eq
          newStringRecord_def generateCodes_obj_eq Let_def
        split: sum.splits)
qed

text \<open>
  Claim C5. Two invocations on the same text, the second one started in the store that
  the first one has left behind (with the first one's heap, frequency object and code
  object still in it), return the same frequency table, the same code table and the same
  encoded string; and the result of an invocation is the same whatever store it is started
  in. Nothing of what an invocation allocates or mutates is read by the next:
  the heap and the two objects are created anew and initialised, and the order in which
  \<^verbatim>\<open>Object.entries\<close> and the heap hand out the symbols depends on the contents of these
  fresh objects only.
\<close>

theorem huffmanEncode_twice_same_tables:
  "\<exists>r1 s1 r2 s2.
     huffmanEncode_obj text s0 = Inr (r1, s1) \<and> huffmanEncode_obj text s1 = Inr (r2, s2)
     \<and> nextAddr s0 < nextAddr s1
     \<and> frequencies r2 = frequencies r1 \<and> codes r2 = codes r1 \<and> encoded r2 = encoded r1
     \<and> (\<forall>s. \<exists>s'. huffmanEncode_obj text s = Inr (r1, s'))"
proof -
  have "\<exists>r. huffmanEncode text = Inr r"
  proof (cases "text = []")
    case True
    then show ?thesis by (simp add: huffmanEncode_def)
  next
    case False
    from huffmanEncode_nonempty [OF False] show ?thesis by blast
  qed
  then obtain r where r: "huffmanEncode text = Inr r" ..
  from huffmanEncode_obj_Inr [OF r, of s0] obtain s1 where
    s1: "huffmanEncode_obj text s0 = Inr (r, s1)" "nextAddr s0 < nextAddr s1"
    by blast
  from huffmanEncode_obj_Inr [OF r, of s1] obtain s2 where
    s2: "huffmanEncode_obj text s1 = Inr (r, s2)"
    by blast
  have "\<forall>s. \<exists>s'. huffmanEncode_obj text s = Inr (r, s')"
    using huffmanEncode_obj_Inr [OF r] by blast
  with s1 s2 show ?thesis by blast
qed

text \<open>
  A run of it: the text \<^verbatim>\<open>"ab"\<close>, started in a store whose every address holds
  leftovers (a heap with a node \<^verbatim>\<open>z\<close>, tables with an entry for \<^verbatim>\<open>z\<close>).
\<close>

definition dirtyStore :: store where
  "dirtyStore =
     \<lparr>arrays = (\<lambda>a. [Node (Some [0x7A]) 9 None None]),
      numberRecords = (\<lambda>a. [([0x7A], 9)]),
      stringRecords = (\<lambda>a. [([0x7A], [0x31])]),
      nextAddr = 0\<rparr>"

lemma huffmanEncode_obj_dirty_run:
  "map_sum id fst (huffmanEncode_obj [0x61, 0x62] dirtyStore)
     = Inr \<lparr>frequencies = [([0x61], 1), ([0x62], 1)], codes = [([0x61], [0x30]), ([0x62], [0x31])],
            encoded = [0x30, 0x31], decoded = [0x61, 0x62],
            compressionRatio = 25 / 2, originalSize = 16, compressedSize = 2\<rparr>"
  by code_simp

section \<open>The heap order\<close>

text \<open>The heap order on the array: no element is lighter than its parent.\<close>

definition is_heap :: "MinHeap \<Rightarrow> bool" where
  "is_heap h = (\<forall>j. 0 < j \<and> j < length h \<longrightarrow> freq (h ! getParentIndex j) \<le> freq (h ! j))"

lemma parent_less: "0 < j \<Longrightarrow> getParentIndex j < j"
  by (simp add: getParentIndex_def)

lemma parent_children:
  "0 < j \<Longrightarrow> getParentIndex j = i \<longleftrightarrow> j = getLeftChildIndex i \<or> j = getRightChildIndex i"
  unfolding getParentIndex_def getLeftChildIndex_def getRightChildIndex_def by presburger

lemma swap_nth:
  "i < length h \<Longrightarrow> j < length h \<Longrightarrow>
   swap h i j ! k = (if k = j then h ! i else if k = i then h ! j else h ! k)"
  by (simp add: swap_def nth_list_update)

lemma length_swap [simp]: "length (swap h i j) = length h"
  by (simp add: swap_def)

lemma is_heap_root_least:
  assumes "is_heap h" "i < length h"
  shows "freq (h ! 0) \<le> freq (h ! i)"
  using assms(2)
proof (induction i rule: less_induct)
  case (less i)
  show ?case
  proof (cases "i = 0")
    case True
    then show ?thesis by simp
  next
    case False
    then have p: "getParentIndex i < i"
      by (simp add: parent_less)
    then have "freq (h ! 0) \<le> freq (h ! getParentIndex i)"
      using less by simp
    also have "\<dots> \<le> freq (h ! i)"
      using assms(1) False less.prems by (simp add: is_heap_def)
    finally show ?thesis .
  qed
qed

text \<open>
  The array while \<^verbatim>\<open>heapifyUp\<close> is at index \<open>i\<close>: the order holds everywhere except
  between \<open>i\<close> and its parent, and the children of \<open>i\<close> are not lighter than the parent
  of \<open>i\<close>.
\<close>

definition heap_but_up :: "MinHeap \<Rightarrow> nat \<Rightarrow> bool" where
  "heap_but_up h i =
     ((\<forall>j. 0 < j \<and> j < length h \<and> j \<noteq> i \<longrightarrow> freq (h ! getParentIndex j) \<le> freq (h ! j))
      \<and> (\<forall>j. 0 < j \<and> j < length h \<and> getParentIndex j = i \<and> 0 < i
            \<longrightarrow> freq (h ! getParentIndex i) \<le> freq (h ! j)))"

lemma heap_but_up_swap:
  assumes inv: "heap_but_up h i" and i: "0 < i" "i < length h"
    and gt: "freq (h ! getParentIndex i) > freq (h ! i)"
  shows "heap_but_up (swap h (getParentIndex i) i) (getParentIndex i)"
proof -
  let ?p = "getParentIndex i"
  let ?h = "swap h ?p i"
  have p: "?p < i" using i(1) by (rule parent_less)
  have nth: "?h ! k = (if k = i then h ! ?p else if k = ?p then h ! i else h ! k)" for k
    using p i(2) by (simp add: swap_nth)
  have one: "freq (h ! getParentIndex j) \<le> freq (h ! j)" if "0 < j" "j < length h" "j \<noteq> i" for j
    using inv that by (simp add: heap_but_up_def)
  have two: "freq (h ! ?p) \<le> freq (h ! j)" if "0 < j" "j < length h" "getParentIndex j = i" for j
    using inv that i(1) by (simp add: heap_but_up_def)
  have "freq (?h ! getParentIndex j) \<le> freq (?h ! j)" if j: "0 < j" "j < length h" "j \<noteq> ?p" for j
  proof (cases "j = i")
    case True
    then show ?thesis
      using gt p by (simp add: nth)
  next
    case False
    have pj: "getParentIndex j < j" using j(1) by (rule parent_less)
    consider "getParentIndex j = ?p" | "getParentIndex j = i" | "getParentIndex j \<noteq> ?p" "getParentIndex j \<noteq> i"
      by blast
    then show ?thesis
    proof cases
      case 1
      then show ?thesis
        using one [OF j(1,2) False] gt False j(3) p by (simp add: nth)
    next
      case 2
      then show ?thesis
        using two [OF j(1,2) 2] False j(3) p by (simp add: nth)
    next
      case 3
      then show ?thesis
        using one [OF j(1,2) False] False j(3) by (simp add: nth)
    qed
  qed
  moreover have "freq (?h ! getParentIndex ?p) \<le> freq (?h ! j)"
    if j: "0 < j" "j < length h" "getParentIndex j = ?p" "0 < ?p" for j
  proof -
    have pp: "getParentIndex ?p < ?p" using j(4) by (rule parent_less)
    have a: "freq (h ! getParentIndex ?p) \<le> freq (h ! ?p)"
      using one [of ?p] j(4) p i(2) by simp
    have jp: "j \<noteq> ?p" using parent_less [OF j(1)] j(3) by simp
    show ?thesis
    proof (cases "j = i")
      case True
      then show ?thesis using a pp p by (simp add: nth)
    next
      case False
      then show ?thesis
        using one [OF j(1,2) False] a pp p jp j(3) by (simp add: nth)
    qed
  qed
  ultimately show ?thesis
    by (simp add: heap_but_up_def)
qed

lemma heapifyUp_is_heap:
  "heap_but_up h i \<Longrightarrow> i < length h \<Longrightarrow> heapifyUp h i = Inr h' \<Longrightarrow> is_heap h'"
proof (induction h i rule: heapifyUp.induct)
  case (1 h index)
  show ?case
  proof (cases "index = 0")
    case True
    then show ?thesis
      using "1.prems" by (auto simp: heapifyUp.simps heap_but_up_def is_heap_def)
  next
    case False
    show ?thesis
    proof (cases "freq (h ! getParentIndex index) > freq (h ! index)")
      case True
      have "heap_but_up (swap h (getParentIndex index) index) (getParentIndex index)"
        using heap_but_up_swap [OF "1.prems"(1) _ "1.prems"(2) True] False by simp
      moreover have "getParentIndex index < length (swap h (getParentIndex index) index)"
        using parent_less [of index] False "1.prems"(2) by simp
      moreover have "heapifyUp (swap h (getParentIndex index) index) (getParentIndex index) = Inr h'"
        using "1.prems"(2,3) False True by (subst (asm) heapifyUp.simps) (simp add: Let_def)
      ultimately show ?thesis
        using "1.IH" [OF False refl _ True] "1.prems"(2) by simp
    next
      case nogt: False
      then have "h' = h"
        using "1.prems"(2,3) False by (subst (asm) heapifyUp.simps) (simp add: Let_def)
      moreover have "is_heap h"
        unfolding is_heap_def
      proof (intro allI impI)
        fix j assume "0 < j \<and> j < length h"
        then show "freq (h ! getParentIndex j) \<le> freq (h ! j)"
          using "1.prems"(1) nogt by (cases "j = index") (auto simp: heap_but_up_def)
      qed
      ultimately show ?thesis by simp
    qed
  qed
qed

lemma insert_is_heap:
  assumes "is_heap h" "insert h node = Inr h'"
  shows "is_heap h'"
proof -
  have "heap_but_up (h @ [node]) (length h)"
    unfolding heap_but_up_def
  proof (intro conjI allI impI)
    fix j assume j: "0 < j \<and> j < length (h @ [node]) \<and> j \<noteq> length h"
    then have "j < length h" by simp
    moreover from this have "getParentIndex j < length h"
      using parent_less [of j] j by simp
    ultimately show "freq ((h @ [node]) ! getParentIndex j) \<le> freq ((h @ [node]) ! j)"
      using assms(1) j by (simp add: nth_append is_heap_def)
  next
    fix j assume j: "0 < j \<and> j < length (h @ [node]) \<and> getParentIndex j = length h \<and> 0 < length h"
    then have False
      using parent_less [of j] by simp
    then show "freq ((h @ [node]) ! getParentIndex (length h)) \<le> freq ((h @ [node]) ! j)" ..
  qed
  moreover have "heapifyUp (h @ [node]) (length h) = Inr h'"
    using assms(2) by (simp add: insert_def Let_def)
  ultimately show ?thesis
    using heapifyUp_is_heap [of "h @ [node]" "length h" h'] by simp
qed


text \<open>
  The array while \<^verbatim>\<open>heapifyDown\<close> is at index \<open>i\<close>: the order holds everywhere except
  between \<open>i\<close> and its children, and the children of \<open>i\<close> are not lighter than the
  parent of \<open>i\<close>.
\<close>

definition heap_but_down :: "MinHeap \<Rightarrow> nat \<Rightarrow> bool" where
  "heap_but_down h i =
     ((\<forall>j. 0 < j \<and> j < length h \<and> getParentIndex j \<noteq> i \<longrightarrow> freq (h ! getParentIndex j) \<le> freq (h ! j))
      \<and> (\<forall>j. 0 < j \<and> j < length h \<and> getParentIndex j = i \<and> 0 < i
            \<longrightarrow> freq (h ! getParentIndex i) \<le> freq (h ! j)))"

text \<open>The index that \<^verbatim>\<open>heapifyDown\<close> computes in \<^verbatim>\<open>smallest\<close>.\<close>

definition smallestOf :: "MinHeap \<Rightarrow> nat \<Rightarrow> nat" where
  "smallestOf h index =
     (let leftChildIndex = getLeftChildIndex index;
          rightChildIndex = getRightChildIndex index;
          smallest = index;
          smallest = (if leftChildIndex < length h \<and> freq (h ! leftChildIndex) < freq (h ! smallest)
                      then leftChildIndex else smallest);
          smallest = (if rightChildIndex < length h \<and> freq (h ! rightChildIndex) < freq (h ! smallest)
                      then rightChildIndex else smallest)
      in smallest)"

lemma heapifyDown_unfold:
  "heapifyDown h index =
     (if smallestOf h index \<noteq> index then heapifyDown (swap h index (smallestOf h index)) (smallestOf h index)
      else h)"
  by (subst heapifyDown.simps) (simp add: smallestOf_def Let_def)

lemma smallestOf_cases:
  assumes "smallestOf h i = s"
  shows "(s = i \<or> (s < length h \<and> getParentIndex s = i \<and> 0 < s \<and> freq (h ! s) < freq (h ! i)))
         \<and> (\<forall>j. 0 < j \<and> j < length h \<and> getParentIndex j = i \<longrightarrow> freq (h ! s) \<le> freq (h ! j))"
proof -
  have kids: "j = getLeftChildIndex i \<or> j = getRightChildIndex i" if "0 < j" "getParentIndex j = i" for j
    using that by (simp add: parent_children)
  have pl: "getParentIndex (getLeftChildIndex i) = i" and pr: "getParentIndex (getRightChildIndex i) = i"
    by (simp_all add: getParentIndex_def getLeftChildIndex_def getRightChildIndex_def)
  have lr: "getLeftChildIndex i < getRightChildIndex i" "0 < getLeftChildIndex i"
    by (simp_all add: getLeftChildIndex_def getRightChildIndex_def)
  show ?thesis
  proof (intro conjI allI impI)
    show "s = i \<or> (s < length h \<and> getParentIndex s = i \<and> 0 < s \<and> freq (h ! s) < freq (h ! i))"
      using assms pl pr lr
      by (auto simp: smallestOf_def Let_def split: if_splits)
  next
    fix j assume j: "0 < j \<and> j < length h \<and> getParentIndex j = i"
    then consider "j = getLeftChildIndex i" | "j = getRightChildIndex i"
      using kids by blast
    then show "freq (h ! s) \<le> freq (h ! j)"
    proof cases
      case 1
      then show ?thesis
        using assms j by (auto simp: smallestOf_def Let_def split: if_splits)
    next
      case 2
      then show ?thesis
        using assms j lr by (auto simp: smallestOf_def Let_def split: if_splits)
    qed
  qed
qed

lemma heap_but_down_swap:
  assumes inv: "heap_but_down h i" and s: "smallestOf h i = s" "s \<noteq> i"
  shows "heap_but_down (swap h i s) s"
proof -
  let ?h = "swap h i s"
  from smallestOf_cases [OF s(1)] s(2) have
    sl: "s < length h" and ps: "getParentIndex s = i" and s0: "0 < s"
    and lt: "freq (h ! s) < freq (h ! i)"
    and least: "\<And>j. 0 < j \<Longrightarrow> j < length h \<Longrightarrow> getParentIndex j = i \<Longrightarrow> freq (h ! s) \<le> freq (h ! j)"
    by auto
  have i_lt_s: "i < s" using parent_less [OF s0] ps by simp
  have nth: "?h ! k = (if k = s then h ! i else if k = i then h ! s else h ! k)" for k
    using i_lt_s sl by (simp add: swap_nth)
  have one: "freq (h ! getParentIndex j) \<le> freq (h ! j)"
    if "0 < j" "j < length h" "getParentIndex j \<noteq> i" for j
    using inv that by (simp add: heap_but_down_def)
  have two: "freq (h ! getParentIndex i) \<le> freq (h ! j)"
    if "0 < j" "j < length h" "getParentIndex j = i" "0 < i" for j
    using inv that by (simp add: heap_but_down_def)
  have "freq (?h ! getParentIndex j) \<le> freq (?h ! j)"
    if j: "0 < j" "j < length h" "getParentIndex j \<noteq> s" for j
  proof -
    have pj: "getParentIndex j < j" using j(1) by (rule parent_less)
    show ?thesis
    proof (cases "getParentIndex j = i")
      case True
      then have ji: "j \<noteq> i" using pj by simp
      show ?thesis
      proof (cases "j = s")
        case True
        then show ?thesis using lt ps i_lt_s by (simp add: nth)
      next
        case False
        then show ?thesis
          using least [OF j(1,2) True] True ji i_lt_s by (simp add: nth)
      qed
    next
      case False
      have js: "j \<noteq> s" using False ps by auto
      show ?thesis
      proof (cases "j = i")
        case True
        then have "0 < i" using j(1) by simp
        from two [OF s0 sl ps this] show ?thesis
          using True False j(3) js i_lt_s by (simp add: nth)
      next
        case ji: False
        then show ?thesis
          using one [OF j(1,2) False] False j(3) js by (simp add: nth)
      qed
    qed
  qed
  moreover have "freq (?h ! getParentIndex s) \<le> freq (?h ! j)"
    if j: "0 < j" "j < length h" "getParentIndex j = s" for j
  proof -
    have "s < j" using parent_less [OF j(1)] j(3) by simp
    then have "j \<noteq> s" "j \<noteq> i" using i_lt_s by auto
    moreover have "freq (h ! s) \<le> freq (h ! j)"
      using one [OF j(1,2)] j(3) i_lt_s by simp
    ultimately show ?thesis
      using ps i_lt_s by (simp add: nth)
  qed
  ultimately show ?thesis
    by (simp add: heap_but_down_def)
qed

lemma heapifyDown_is_heap: "heap_but_down h i \<Longrightarrow> is_heap (heapifyDown h i)"
proof (induction h i rule: heapifyDown.induct)
  case (1 h index)
  show ?case
  proof (cases "smallestOf h index = index")
    case True
    have "is_heap h"
      unfolding is_heap_def
    proof (intro allI impI)
      fix j assume j: "0 < j \<and> j < length h"
      show "freq (h ! getParentIndex j) \<le> freq (h ! j)"
      proof (cases "getParentIndex j = index")
        case p: True
        with smallestOf_cases [OF True] j show ?thesis by simp
      next
        case False
        with "1.prems" j show ?thesis by (simp add: heap_but_down_def)
      qed
    qed
    then show ?thesis
      using True by (subst heapifyDown_unfold) simp
  next
    case False
    have "heap_but_down (swap h index (smallestOf h index)) (smallestOf h index)"
      using heap_but_down_swap [OF "1.prems" refl False] .
    then have "is_heap (heapifyDown (swap h index (smallestOf h index)) (smallestOf h index))"
      using "1.IH" [OF refl refl refl refl refl] False
      unfolding smallestOf_def Let_def by simp
    then show ?thesis
      using False by (subst heapifyDown_unfold) simp
  qed
qed

lemma extractMin_is_heap:
  assumes "is_heap h" "extractMin h = (Some node, h')"
  shows "is_heap h' \<and> (\<forall>x \<in> set h. freq node \<le> freq x)"
proof -
  have ne: "h \<noteq> []"
    using assms(2) by (auto simp: extractMin_def)
  have node: "node = h ! 0"
    using assms(2) ne by (cases h) (auto simp: extractMin_def Let_def last_conv_nth split: if_splits)
  have least: "\<forall>x \<in> set h. freq node \<le> freq x"
    using is_heap_root_least [OF assms(1)] node by (auto simp: in_set_conv_nth)
  have "is_heap h'"
  proof (cases "length h = 1")
    case True
    then have "h' = []"
      using assms(2) by (cases h) (auto simp: extractMin_def)
    then show ?thesis by (simp add: is_heap_def)
  next
    case False
    let ?h = "(butlast h)[0 := last h]"
    have h': "h' = heapifyDown ?h 0"
      using assms(2) ne False by (auto simp: extractMin_def Let_def)
    have "heap_but_down ?h 0"
      unfolding heap_but_down_def
    proof (intro conjI allI impI)
      fix j assume j: "0 < j \<and> j < length ?h \<and> getParentIndex j \<noteq> 0"
      then have jl: "j < length h - 1" by simp
      have "getParentIndex j < j" using j by (simp add: parent_less)
      then have "?h ! getParentIndex j = h ! getParentIndex j" "?h ! j = h ! j"
        using j jl by (simp_all add: nth_butlast)
      moreover have "j < length h"
        using jl by simp
      then have "freq (h ! getParentIndex j) \<le> freq (h ! j)"
        using assms(1) j by (simp add: is_heap_def)
      ultimately show "freq (?h ! getParentIndex j) \<le> freq (?h ! j)"
        by simp
    qed simp
    then show ?thesis
      unfolding h' by (rule heapifyDown_is_heap)
  qed
  with least show ?thesis by simp
qed

section \<open>The invariant of the merge loop\<close>

lemma insertLeaves_is_heap:
  "is_heap h \<Longrightarrow> insertLeaves h es = Inr h' \<Longrightarrow> is_heap h'"
proof (induction es arbitrary: h)
  case Nil
  then show ?case by simp
next
  case (Cons e es)
  obtain ch f where e: "e = (ch, f)" by (cases e)
  obtain h1 where h1: "insert h (createNode (Some ch) f None None) = Inr h1"
    using insert_Inr by blast
  then have "is_heap h1"
    using Cons.prems(1) by (rule insert_is_heap [rotated])
  moreover have "insertLeaves h1 es = Inr h'"
    using Cons.prems(2) h1 by (simp add: e)
  ultimately show ?case by (rule Cons.IH)
qed

lemma mergeTwo_is_heap:
  assumes "is_heap h" "mergeTwo h = Inr h'"
  shows "\<exists>a b M. mset h = add_mset a (add_mset b M) \<and> mset h' = add_mset (merged a b) M
           \<and> is_heap h' \<and> freq a \<le> freq b \<and> (\<forall>x \<in># M. freq b \<le> freq x)"
proof -
  from assms(2) obtain a h1 b h2 where
    a: "extractMin h = (Some a, h1)" and b: "extractMin h1 = (Some b, h2)"
    and i: "insert h2 (merged a b) = Inr h'"
    by (auto simp: mergeTwo_def merged_def split: prod.splits option.splits)
  from extractMin_is_heap [OF assms(1) a] have h1: "is_heap h1" "\<forall>x \<in> set h. freq a \<le> freq x"
    by auto
  from extractMin_is_heap [OF h1(1) b] have h2: "is_heap h2" "\<forall>x \<in> set h1. freq b \<le> freq x"
    by auto
  have ma: "mset h = add_mset a (mset h1)" and mb: "mset h1 = add_mset b (mset h2)"
    using extractMin_mset [OF a] extractMin_mset [OF b] by auto
  have "b \<in># mset h"
    by (simp add: ma mb)
  then have "freq a \<le> freq b"
    using h1(2) by simp
  moreover have "set_mset (mset h1) = set_mset (add_mset b (mset h2))"
    by (simp only: mb)
  then have "\<forall>x \<in># mset h2. freq b \<le> freq x"
    using h2(2) by auto
  moreover have "is_heap h'"
    using h2(1) i by (rule insert_is_heap)
  moreover have "mset h = add_mset a (add_mset b (mset h2))"
    by (simp add: ma mb)
  moreover have "mset h' = add_mset (merged a b) (mset h2)"
    by (rule insert_mset [OF i])
  ultimately show ?thesis
    by blast
qed

subsection \<open>Shape of the trees in the heap\<close>

text \<open>
  A full tree: a leaf has a symbol and no children, an internal node has both children
  and their weights add up to its own.
\<close>

fun full :: "HuffmanNode option \<Rightarrow> bool" where
  "full None = False"
| "full (Some (Node c f l r)) =
     (case c of
        Some ch \<Rightarrow> l = None \<and> r = None
      | None \<Rightarrow>
          (case l of
             None \<Rightarrow> False
           | Some a \<Rightarrow> (case r of None \<Rightarrow> False | Some b \<Rightarrow> f = freq a + freq b \<and> full l \<and> full r)))"

definition kids :: "HuffmanNode \<Rightarrow> HuffmanNode list" where
  "kids n =
     (case char n of
        Some ch \<Rightarrow> []
      | None \<Rightarrow> (case left n of None \<Rightarrow> [] | Some a \<Rightarrow> [a]) @ (case right n of None \<Rightarrow> [] | Some b \<Rightarrow> [b]))"

text \<open>The two weights below an internal node, the lighter first.\<close>

definition ownPair :: "HuffmanNode \<Rightarrow> (nat \<times> nat) list" where
  "ownPair n =
     (case kids n of [a, b] \<Rightarrow> [(min (freq a) (freq b), max (freq a) (freq b))] | _ \<Rightarrow> [])"

fun allPairs :: "HuffmanNode option \<Rightarrow> (nat \<times> nat) list" where
  "allPairs None = []"
| "allPairs (Some (Node c f l r)) =
     (case c of Some ch \<Rightarrow> [] | None \<Rightarrow> ownPair (Node c f l r) @ allPairs l @ allPairs r)"

definition forestPairs :: "HuffmanNode list \<Rightarrow> (nat \<times> nat) multiset" where
  "forestPairs h = (\<Sum>n \<in># mset h. mset (allPairs (Some n)))"

definition separated :: "nat \<times> nat \<Rightarrow> nat \<times> nat \<Rightarrow> bool" where
  "separated x y = (snd x \<le> fst y \<or> snd y \<le> fst x)"

definition chain :: "(nat \<times> nat) multiset \<Rightarrow> bool" where
  "chain M = (\<forall>x y. x \<in># M \<and> y \<in># M - {#x#} \<longrightarrow> separated x y)"

lemma chain_mono:
  assumes "N \<subseteq># M" "chain M"
  shows "chain N"
  unfolding chain_def
proof (intro allI impI)
  fix x y assume xy: "x \<in># N \<and> y \<in># N - {#x#}"
  then have "x \<in># M"
    using assms(1) by (meson mset_subset_eqD)
  moreover have "count {#x#} y < count N y"
    using xy by (simp only: in_diff_count)
  then have "count {#x#} y < count M y"
    using mset_subset_eq_count [OF assms(1), of y] by simp
  then have "y \<in># M - {#x#}"
    by (simp only: in_diff_count)
  ultimately show "separated x y"
    using assms(2) unfolding chain_def by blast
qed

lemma chain_add:
  assumes "chain M" "\<forall>y \<in># M. separated x y"
  shows "chain (add_mset x M)"
  unfolding chain_def
proof (intro allI impI)
  fix u v assume uv: "u \<in># add_mset x M \<and> v \<in># add_mset x M - {#u#}"
  show "separated u v"
  proof (cases "u = x")
    case True
    with uv have "v \<in># M" by simp
    with assms(2) True show ?thesis by simp
  next
    case False
    with uv have u: "u \<in># M" by simp
    have "add_mset x M - {#u#} = add_mset x (M - {#u#})"
      using u by simp
    with uv have "v = x \<or> v \<in># M - {#u#}"
      by auto
    then show ?thesis
    proof
      assume "v = x"
      with assms(2) u show ?thesis by (auto simp: separated_def)
    next
      assume "v \<in># M - {#u#}"
      with assms(1) u show ?thesis unfolding chain_def by blast
    qed
  qed
qed

text \<open>
  The invariant of the merge loop behind the monotonicity of code lengths: the trees are
  full, the child pairs of any two internal nodes do not interleave, and no node below a
  root is heavier than any root.
\<close>

definition huffman_inv :: "HuffmanNode list \<Rightarrow> bool" where
  "huffman_inv h =
     ((\<forall>n \<in># mset h. full (Some n))
      \<and> chain (forestPairs h)
      \<and> (\<forall>n \<in># mset h. \<forall>p \<in># forestPairs h. snd p \<le> freq n))"

lemma full_merged: "full (Some a) \<Longrightarrow> full (Some b) \<Longrightarrow> full (Some (merged a b))"
  by (simp add: merged_def createNode_def)

lemma allPairs_merged:
  "freq a \<le> freq b \<Longrightarrow>
   allPairs (Some (merged a b)) = (freq a, freq b) # allPairs (Some a) @ allPairs (Some b)"
  by (simp add: merged_def createNode_def ownPair_def kids_def)

lemma huffman_inv_step:
  assumes inv: "huffman_inv h"
    and h: "mset h = add_mset a (add_mset b M)"
    and h': "mset h' = add_mset (merged a b) M"
    and ab: "freq a \<le> freq b"
    and least: "\<forall>x \<in># M. freq b \<le> freq x"
  shows "huffman_inv h'"
proof -
  have fp: "forestPairs h' = add_mset (freq a, freq b) (forestPairs h)"
    by (simp add: forestPairs_def h h' allPairs_merged [OF ab])
  have bound: "snd p \<le> freq n" if "n \<in># mset h" "p \<in># forestPairs h" for n p
    using inv that by (simp add: huffman_inv_def)
  have a_in: "a \<in># mset h" and b_in: "b \<in># mset h"
    by (simp_all add: h)
  have "full (Some n)" if "n \<in># mset h'" for n
  proof -
    from that have "n = merged a b \<or> n \<in># M"
      by (simp add: h')
    then show ?thesis
      using inv full_merged [of a b] a_in b_in
      by (auto simp: huffman_inv_def h)
  qed
  moreover have "chain (forestPairs h')"
    unfolding fp
  proof (rule chain_add)
    show "chain (forestPairs h)"
      using inv by (simp add: huffman_inv_def)
    show "\<forall>y \<in># forestPairs h. separated (freq a, freq b) y"
      using bound [OF a_in] by (simp add: separated_def)
  qed
  moreover have "snd p \<le> freq n" if n: "n \<in># mset h'" and p: "p \<in># forestPairs h'" for n p
  proof -
    from n have n': "n = merged a b \<or> n \<in># M"
      by (simp add: h')
    from p have p': "p = (freq a, freq b) \<or> p \<in># forestPairs h"
      by (simp add: fp)
    have fm: "freq (merged a b) = freq a + freq b"
      by (simp add: merged_def createNode_def)
    from n' p' show ?thesis
    proof (elim disjE)
      assume "n = merged a b" "p = (freq a, freq b)"
      then show ?thesis by (simp add: fm)
    next
      assume "n = merged a b" "p \<in># forestPairs h"
      then show ?thesis using bound [OF a_in, of p] by (simp add: fm)
    next
      assume "n \<in># M" "p = (freq a, freq b)"
      then show ?thesis using least by simp
    next
      assume "n \<in># M" "p \<in># forestPairs h"
      then show ?thesis using bound [of n p] by (simp add: h)
    qed
  qed
  ultimately show ?thesis
    by (simp add: huffman_inv_def)
qed

lemma huffman_inv_initial:
  assumes "mset h = mset (map leafNode es)"
  shows "huffman_inv h"
proof -
  have leaf: "n \<in># mset h \<Longrightarrow> \<exists>e. n = leafNode e" for n
    using assms by auto
  have ap: "allPairs (Some n) = []" if "n \<in># mset h" for n
    using leaf [OF that] by (auto simp: leafNode_def createNode_def)
  have "image_mset (\<lambda>n. mset (allPairs (Some n))) (mset h) = image_mset (\<lambda>n. {#}) (mset h)"
    by (rule image_mset_cong) (simp add: ap)
  then have "forestPairs h = {#}"
    by (simp add: forestPairs_def)
  moreover have "full (Some n)" if "n \<in># mset h" for n
    using leaf [OF that] by (auto simp: leafNode_def createNode_def)
  ultimately show ?thesis
    by (simp add: huffman_inv_def chain_def)
qed

lemma buildHuffmanTree_huffman:
  assumes "length fs > 1"
  shows "\<exists>rt. buildHuffmanTree fs = Inr (Some rt) \<and> full (Some rt)
           \<and> chain (mset (allPairs (Some rt)))"
proof -
  from buildHuffmanTree_many [OF assms] obtain heap rt where
    h: "insertLeaves [] (Object_entries fs) = Inr heap"
      "mset heap = mset (map leafNode (Object_entries fs))" "length heap = length fs"
      "mergeNodes heap = Inr [rt]" "buildHuffmanTree fs = Inr (Some rt)"
    by blast
  have ne: "heap \<noteq> []"
    using h(3) assms by auto
  have heap0: "is_heap heap"
    using insertLeaves_is_heap [OF _ h(1)] by (simp add: is_heap_def)
  have "\<exists>rt'. mergeNodes heap = Inr [rt'] \<and> (is_heap [rt'] \<and> huffman_inv [rt'])"
  proof (rule mergeNodes_invariant [where I = "\<lambda>h'. is_heap h' \<and> huffman_inv h'"])
    show "is_heap heap \<and> huffman_inv heap"
      using heap0 huffman_inv_initial [OF h(2)] by simp
    show "heap \<noteq> []" by (rule ne)
    fix h1 h2 assume a: "is_heap h1 \<and> huffman_inv h1" "mergeTwo h1 = Inr h2"
    from mergeTwo_is_heap [OF _ a(2)] a(1) obtain x y M where
      m: "mset h1 = add_mset x (add_mset y M)" "mset h2 = add_mset (merged x y) M"
        "is_heap h2" "freq x \<le> freq y" "\<forall>z \<in># M. freq y \<le> freq z"
      by blast
    show "is_heap h2 \<and> huffman_inv h2"
      using m(3) huffman_inv_step [OF _ m(1,2,4,5)] a(1) by simp
  qed
  then have "huffman_inv [rt]"
    using h(4) by simp
  then show ?thesis
    using h(5) by (simp add: huffman_inv_def forestPairs_def)
qed

subsection \<open>Depth in the finished tree\<close>

definition kidsL :: "HuffmanNode list \<Rightarrow> HuffmanNode list" where
  "kidsL ns = concat (map kids ns)"

text \<open>The nodes at depth \<open>d\<close> below the given nodes.\<close>

fun level :: "nat \<Rightarrow> HuffmanNode list \<Rightarrow> HuffmanNode list" where
  "level 0 ns = ns"
| "level (Suc d) ns = level d (kidsL ns)"

definition ownPairs :: "HuffmanNode list \<Rightarrow> (nat \<times> nat) multiset" where
  "ownPairs ns = mset (concat (map ownPair ns))"

lemma level_Suc_kids: "level (Suc d) ns = kidsL (level d ns)"
  by (induction d arbitrary: ns) simp_all

lemma level_add: "level (d + k) ns = level k (level d ns)"
  by (induction d arbitrary: ns) simp_all

lemma kidsL_append: "kidsL (xs @ ys) = kidsL xs @ kidsL ys"
  by (simp add: kidsL_def)

lemma level_append: "level d (xs @ ys) = level d xs @ level d ys"
  by (induction d arbitrary: xs ys) (simp_all add: kidsL_append)

lemma forestPairs_Nil: "forestPairs [] = {#}"
  by (simp add: forestPairs_def)

lemma forestPairs_Cons: "forestPairs (n # ns) = mset (allPairs (Some n)) + forestPairs ns"
  by (simp add: forestPairs_def)

lemma forestPairs_append: "forestPairs (xs @ ys) = forestPairs xs + forestPairs ys"
  by (simp add: forestPairs_def)

lemma allPairs_split: "mset (allPairs (Some n)) = mset (ownPair n) + forestPairs (kids n)"
proof -
  obtain c f l r where n: "n = Node c f l r" by (cases n)
  show ?thesis
  proof (cases c)
    case None
    have "forestPairs (kids n) = mset (allPairs l) + mset (allPairs r)"
      by (cases l; cases r) (simp_all add: n None kids_def forestPairs_def)
    then show ?thesis
      by (simp add: n None)
  next
    case (Some ch)
    then show ?thesis
      by (simp add: n kids_def ownPair_def forestPairs_def)
  qed
qed

lemma forestPairs_split: "forestPairs ns = ownPairs ns + forestPairs (kidsL ns)"
proof (induction ns)
  case Nil
  then show ?case by (simp add: forestPairs_def ownPairs_def kidsL_def)
next
  case (Cons n ns)
  have "kidsL (n # ns) = kids n @ kidsL ns"
    by (simp add: kidsL_def)
  moreover have "ownPairs (n # ns) = mset (ownPair n) + ownPairs ns"
    by (simp add: ownPairs_def)
  ultimately show ?case
    by (simp add: forestPairs_Cons forestPairs_append allPairs_split Cons.IH)
qed

lemma forestPairs_level: "forestPairs (level d ns) \<subseteq># forestPairs ns"
proof (induction d arbitrary: ns)
  case 0
  then show ?case by simp
next
  case (Suc d)
  have "forestPairs (level d (kidsL ns)) \<subseteq># forestPairs (kidsL ns)"
    by (rule Suc.IH)
  also have "\<dots> \<subseteq># forestPairs ns"
    by (subst (2) forestPairs_split) simp
  finally show ?case by simp
qed

lemma two_levels:
  assumes "d < e"
  shows "ownPairs (level d ns) + ownPairs (level e ns) \<subseteq># forestPairs ns"
proof -
  from assms obtain k where e: "e = Suc d + k"
    using less_iff_Suc_add by auto
  have "ownPairs (level e ns) \<subseteq># forestPairs (level e ns)"
    by (subst forestPairs_split) simp
  also have "\<dots> \<subseteq># forestPairs (level (Suc d) ns)"
    unfolding e level_add by (rule forestPairs_level)
  finally have "ownPairs (level d ns) + ownPairs (level e ns)
      \<subseteq># ownPairs (level d ns) + forestPairs (level (Suc d) ns)"
    by simp
  also have "\<dots> = forestPairs (level d ns)"
    unfolding level_Suc_kids by (rule forestPairs_split [symmetric])
  also have "\<dots> \<subseteq># forestPairs ns"
    by (rule forestPairs_level)
  finally show ?thesis .
qed

lemma chain_pair:
  assumes "chain M" "x \<in># A" "y \<in># B" "A + B \<subseteq># M"
  shows "separated x y"
proof -
  have "{#x#} + {#y#} \<subseteq># A + B"
    using assms(2,3) by (intro subset_mset.add_mono) simp_all
  then have "{#x#} + {#y#} \<subseteq># M"
    using assms(4) by (rule subset_mset.order_trans)
  then have "add_mset x {#y#} \<subseteq># M"
    by (simp add: add_mset_commute)
  then have "x \<in># M \<and> y \<in># M - {#x#}"
    by (simp add: insert_subset_eq_iff)
  then show ?thesis
    using assms(1) unfolding chain_def by blast
qed

lemma full_kids:
  assumes "full (Some p)" "u \<in> set (kids p)"
  shows "\<exists>lo hi. ownPair p = [(lo, hi)] \<and> lo \<le> hi \<and> lo + hi = freq p
           \<and> (freq u = lo \<or> freq u = hi) \<and> full (Some u)"
proof -
  obtain c f l r where p: "p = Node c f l r" by (cases p)
  from assms(2) have c: "c = None"
    by (cases c) (simp_all add: p kids_def)
  from assms(1) c obtain a b where ab: "l = Some a" "r = Some b" "f = freq a + freq b"
      "full (Some a)" "full (Some b)"
    by (auto simp: p split: option.splits)
  have k: "kids p = [a, b]"
    by (simp add: p c ab kids_def)
  then have "ownPair p = [(min (freq a) (freq b), max (freq a) (freq b))]"
    by (simp add: ownPair_def)
  moreover have "u = a \<or> u = b"
    using assms(2) k by simp
  ultimately show ?thesis
    using ab by (auto simp: p min_def max_def)
qed

lemma in_kidsL: "u \<in> set (kidsL ns) \<Longrightarrow> \<exists>p \<in> set ns. u \<in> set (kids p)"
  by (auto simp: kidsL_def)

lemma kidsL_full:
  assumes "\<forall>n \<in> set ns. full (Some n)"
  shows "\<forall>n \<in> set (kidsL ns). full (Some n)"
proof
  fix n assume "n \<in> set (kidsL ns)"
  then obtain p where p: "p \<in> set ns" "n \<in> set (kids p)"
    by (auto dest: in_kidsL)
  with assms have "full (Some p)" by simp
  from full_kids [OF this p(2)] show "full (Some n)" by blast
qed

lemma level_full:
  "\<forall>n \<in> set ns. full (Some n) \<Longrightarrow> \<forall>n \<in> set (level d ns). full (Some n)"
proof (induction d arbitrary: ns)
  case 0
  then show ?case by simp
next
  case (Suc d)
  from kidsL_full [OF Suc.prems] have "\<forall>n \<in> set (kidsL ns). full (Some n)" .
  from Suc.IH [OF this] show ?case by simp
qed

lemma ownPair_in_ownPairs: "p \<in> set ns \<Longrightarrow> x \<in> set (ownPair p) \<Longrightarrow> x \<in># ownPairs ns"
  by (auto simp: ownPairs_def)

lemma level_le_root:
  assumes "full (Some rt)"
  shows "v \<in> set (level e [rt]) \<Longrightarrow> freq v \<le> freq rt"
proof (induction e arbitrary: v)
  case 0
  then show ?case by simp
next
  case (Suc e)
  from Suc.prems obtain p where p: "p \<in> set (level e [rt])" "v \<in> set (kids p)"
    unfolding level_Suc_kids by (auto dest: in_kidsL)
  have "full (Some p)"
    using level_full [of "[rt]" e] assms p(1) by simp
  from full_kids [OF this p(2)] have "freq v \<le> freq p"
    by auto
  also have "\<dots> \<le> freq rt"
    using p(1) by (rule Suc.IH)
  finally show ?case .
qed

text \<open>In the finished tree a deeper node is never heavier than a shallower one.\<close>

lemma depth_order:
  assumes "full (Some rt)" "chain (forestPairs [rt])"
  shows "d < e \<Longrightarrow> u \<in> set (level d [rt]) \<Longrightarrow> v \<in> set (level e [rt]) \<Longrightarrow> freq v \<le> freq u"
proof (induction d arbitrary: e u v)
  case 0
  then show ?case
    using level_le_root [OF assms(1)] by simp
next
  case (Suc d)
  from Suc.prems(1) obtain e' where e: "e = Suc e'" "d < e'"
    by (cases e) auto
  from Suc.prems(2) obtain pu where pu: "pu \<in> set (level d [rt])" "u \<in> set (kids pu)"
    unfolding level_Suc_kids by (auto dest: in_kidsL)
  from Suc.prems(3) obtain pv where pv: "pv \<in> set (level e' [rt])" "v \<in> set (kids pv)"
    unfolding e level_Suc_kids by (auto dest: in_kidsL)
  have le: "freq pv \<le> freq pu"
    using Suc.IH [OF e(2) pu(1) pv(1)] .
  have "full (Some pu)" "full (Some pv)"
    using level_full [of "[rt]"] assms(1) pu(1) pv(1) by simp_all
  from full_kids [OF this(1) pu(2)] full_kids [OF this(2) pv(2)] obtain lu hu lv hv where
    u: "ownPair pu = [(lu, hu)]" "lu \<le> hu" "lu + hu = freq pu" "freq u = lu \<or> freq u = hu"
    and v: "ownPair pv = [(lv, hv)]" "lv \<le> hv" "lv + hv = freq pv" "freq v = lv \<or> freq v = hv"
    by blast
  have "(lu, hu) \<in># ownPairs (level d [rt])" "(lv, hv) \<in># ownPairs (level e' [rt])"
    using ownPair_in_ownPairs [OF pu(1)] ownPair_in_ownPairs [OF pv(1)] u(1) v(1) by simp_all
  then have "separated (lu, hu) (lv, hv)"
    using chain_pair [OF assms(2) _ _ two_levels [OF e(2)]] by blast
  then have "hu \<le> lv \<or> hv \<le> lu"
    by (simp add: separated_def)
  then show ?case
    using u(2,3,4) v(2,3,4) le by auto
qed

subsection \<open>A code is as long as its leaf is deep\<close>

lemma code_level:
  assumes "(k, c) \<in> set (codeList t p)"
    and "p \<noteq> [] \<or> (\<forall>n. t = Some n \<longrightarrow> char n = None)"
  shows "\<exists>n leaf. t = Some n \<and> length p \<le> length c
           \<and> leaf \<in> set (level (length c - length p) [n])
           \<and> char leaf = Some k \<and> (k, freq leaf) \<in> set (leaves t)"
  using assms
proof (induction t p rule: codeList.induct)
  case (1 code)
  then show ?case by simp
next
  case (2 ch f l r code)
  show ?case
  proof (cases ch)
    case (Some a)
    with "2.prems" have "k = a" "c = code"
      by (auto split: if_splits)
    then show ?thesis
      using Some by simp
  next
    case None
    have kn: "kidsL [Node ch f l r] = (case l of None \<Rightarrow> [] | Some a \<Rightarrow> [a]) @ (case r of None \<Rightarrow> [] | Some b \<Rightarrow> [b])"
      by (simp add: kidsL_def kids_def None)
    from None "2.prems" consider (L) "(k, c) \<in> set (codeList l (code @ bit0))"
      | (R) "(k, c) \<in> set (codeList r (code @ bit1))"
      by auto
    then show ?thesis
    proof cases
      case L
      from "2.IH"(1) [OF None L] obtain a leaf where
        a: "l = Some a" "Suc (length code) \<le> length c"
          "leaf \<in> set (level (length c - Suc (length code)) [a])"
          "char leaf = Some k" "(k, freq leaf) \<in> set (leaves l)"
        by auto
      have k2: "kidsL [Node ch f l r] = [a] @ (case r of None \<Rightarrow> [] | Some b \<Rightarrow> [b])"
        using kn a(1) by simp
      have "leaf \<in> set (level (length c - Suc (length code)) (kidsL [Node ch f l r]))"
        unfolding k2 level_append using a(3) by simp
      then have "leaf \<in> set (level (Suc (length c - Suc (length code))) [Node ch f l r])"
        by simp
      moreover have "Suc (length c - Suc (length code)) = length c - length code"
        using a(2) by simp
      ultimately have "leaf \<in> set (level (length c - length code) [Node ch f l r])"
        by simp
      then show ?thesis
        using a None by auto
    next
      case R
      from "2.IH"(2) [OF None R] obtain b leaf where
        b: "r = Some b" "Suc (length code) \<le> length c"
          "leaf \<in> set (level (length c - Suc (length code)) [b])"
          "char leaf = Some k" "(k, freq leaf) \<in> set (leaves r)"
        by auto
      have k2: "kidsL [Node ch f l r] = (case l of None \<Rightarrow> [] | Some a \<Rightarrow> [a]) @ [b]"
        using kn b(1) by simp
      have "leaf \<in> set (level (length c - Suc (length code)) (kidsL [Node ch f l r]))"
        unfolding k2 level_append using b(3) by simp
      then have "leaf \<in> set (level (Suc (length c - Suc (length code))) [Node ch f l r])"
        by simp
      moreover have "Suc (length c - Suc (length code)) = length c - length code"
        using b(2) by simp
      ultimately have "leaf \<in> set (level (length c - length code) [Node ch f l r])"
        by simp
      then show ?thesis
        using b None by auto
    qed
  qed
qed

section \<open>Monotonicity of code lengths\<close>

lemma leaf_frequency:
  assumes "mset (leaves t) = mset fs" "distinct (map fst fs)" "(k, f) \<in> set (leaves t)"
  shows "map_of fs k = Some f"
proof -
  have "set (leaves t) = set fs"
    using assms(1) by (rule mset_eq_setD)
  with assms(3) have "(k, f) \<in> set fs" by simp
  with assms(2) show ?thesis by simp
qed

lemma code_length_monotone:
  assumes len: "length (calculateFrequencies text) > 1"
    and rt: "buildHuffmanTree (calculateFrequencies text) = Inr (Some rt)"
    and fa: "map_of (calculateFrequencies text) a = Some fa"
    and fb: "map_of (calculateFrequencies text) b = Some fb"
    and lt: "fb < fa"
    and ca: "map_of (generateCodes (Some rt) [] []) a = Some ca"
    and cb: "map_of (generateCodes (Some rt) [] []) b = Some cb"
  shows "length ca \<le> length cb"
proof (rule ccontr)
  assume "\<not> length ca \<le> length cb"
  then have deeper: "length cb < length ca" by simp
  let ?fs = "calculateFrequencies text"
  have ne: "?fs \<noteq> []" using len by auto
  from buildHuffmanTree_huffman [OF len] rt have full: "full (Some rt)"
    and chain: "chain (forestPairs [rt])"
    by (simp_all add: forestPairs_def)
  from buildHuffmanTree_root [OF ne] rt have inner: "char rt = None"
    and lv: "mset (leaves (Some rt)) = mset ?fs"
    by simp_all
  have "(a, ca) \<in> set (codeList (Some rt) [])" "(b, cb) \<in> set (codeList (Some rt) [])"
    using ca cb by (auto dest: generateCodes_SomeD)
  from code_level [OF this(1)] code_level [OF this(2)] inner obtain la lb where
    la: "la \<in> set (level (length ca) [rt])" "(a, freq la) \<in> set (leaves (Some rt))"
    and lb: "lb \<in> set (level (length cb) [rt])" "(b, freq lb) \<in> set (leaves (Some rt))"
    by auto
  have "freq la = fa" "freq lb = fb"
    using leaf_frequency [OF lv calculateFrequencies_distinct la(2)]
      leaf_frequency [OF lv calculateFrequencies_distinct lb(2)] fa fb by simp_all
  moreover have "freq la \<le> freq lb"
    using depth_order [OF full chain deeper lb(1) la(1)] .
  ultimately show False
    using lt by simp
qed

text \<open>
  Claim C9. For every text, every symbol of it (every key of its frequency table) has a
  code, and for any two symbols, if one has a strictly higher count than the other, its
  code is not longer than the other's.
\<close>

theorem higher_frequency_not_longer_code:
  "\<exists>r. huffmanEncode text = Inr r
     \<and> (\<forall>a fa. map_of (frequencies r) a = Some fa \<longrightarrow> (\<exists>ca. map_of (codes r) a = Some ca))
     \<and> (\<forall>a b fa fb ca cb.
           map_of (frequencies r) a = Some fa \<and> map_of (frequencies r) b = Some fb \<and> fb < fa
           \<and> map_of (codes r) a = Some ca \<and> map_of (codes r) b = Some cb
           \<longrightarrow> length ca \<le> length cb)"
proof (cases "text = []")
  case True
  then show ?thesis by (simp add: huffmanEncode_def)
next
  case False
  from huffmanEncode_nonempty [OF False] obtain rt r where
    rt: "buildHuffmanTree (calculateFrequencies text) = Inr (Some rt)"
    and lv: "mset (leaves (Some rt)) = mset (calculateFrequencies text)"
    and r: "huffmanEncode text = Inr r" "frequencies r = calculateFrequencies text"
      "codes r = generateCodes (Some rt) [] []"
    by auto
  have "\<exists>ca. map_of (codes r) a = Some ca" if "map_of (frequencies r) a = Some fa" for a fa
  proof -
    from that have "a \<in> fst ` set (frequencies r)"
      by (auto dest: map_of_SomeD intro: rev_image_eqI)
    then have "a \<in> fst ` set (codes r)"
      using generateCodes_keys_built [OF lv] by (simp add: r(2,3))
    then show ?thesis
      by (cases "map_of (codes r) a") (simp_all add: map_of_eq_None_iff)
  qed
  moreover have "length ca \<le> length cb"
    if h: "map_of (frequencies r) a = Some fa" "map_of (frequencies r) b = Some fb" "fb < fa"
      "map_of (codes r) a = Some ca" "map_of (codes r) b = Some cb"
    for a b fa fb ca cb
  proof (cases "length (calculateFrequencies text) > 1")
    case True
    then show ?thesis
      using code_length_monotone [OF True rt] h by (simp add: r(2,3))
  next
    case False
    then obtain e where "calculateFrequencies text = [] \<or> calculateFrequencies text = [e]"
      by (cases "calculateFrequencies text") auto
    then have "fa = fb"
      using h(1,2) by (auto simp: r(2) split: if_splits)
    with h(3) show ?thesis by simp
  qed
  ultimately show ?thesis
    using r(1) by blast
qed

theorem higher_frequency_not_longer_code_witness:
  "huffmanEncode [0x61, 0x62, 0x61, 0x63, 0x61]
     = Inr \<lparr>frequencies = [([0x61], 3), ([0x62], 1), ([0x63], 1)],
            codes = [([0x62], [0x30, 0x30]), ([0x63], [0x30, 0x31]), ([0x61], [0x31])],
            encoded = [0x31, 0x30, 0x30, 0x31, 0x30, 0x31, 0x31], decoded = [0x61, 0x62, 0x61, 0x63, 0x61],
            compressionRatio = 35 / 2, originalSize = 40, compressedSize = 7\<rparr>
   \<and> (1 :: nat) < 3
   \<and> length [0x31 :: code_unit] \<le> length [0x30 :: code_unit, 0x30]"
proof -
  have e: "huffmanEncode [0x61, 0x62, 0x61, 0x63, 0x61]
     = Inr \<lparr>frequencies = [([0x61], 3), ([0x62], 1), ([0x63], 1)],
            codes = [([0x62], [0x30, 0x30]), ([0x63], [0x30, 0x31]), ([0x61], [0x31])],
            encoded = [0x31, 0x30, 0x30, 0x31, 0x30, 0x31, 0x31], decoded = [0x61, 0x62, 0x61, 0x63, 0x61],
            compressionRatio = 35 / 2, originalSize = 40, compressedSize = 7\<rparr>"
    by code_simp
  from higher_frequency_not_longer_code [of "[0x61, 0x62, 0x61, 0x63, 0x61]"] obtain r where
    r: "huffmanEncode [0x61, 0x62, 0x61, 0x63, 0x61] = Inr r"
      "\<And>a b fa fb ca cb.
         map_of (frequencies r) a = Some fa \<Longrightarrow> map_of (frequencies r) b = Some fb \<Longrightarrow> fb < fa
         \<Longrightarrow> map_of (codes r) a = Some ca \<Longrightarrow> map_of (codes r) b = Some cb
         \<Longrightarrow> length ca \<le> length cb"
    by blast
  from r(1) e have f: "frequencies r = [([0x61], 3), ([0x62], 1), ([0x63], 1)]"
    and c: "codes r = [([0x62], [0x30, 0x30]), ([0x63], [0x30, 0x31]), ([0x61], [0x31])]"
    by auto
  have "length [0x31 :: code_unit] \<le> length [0x30 :: code_unit, 0x30]"
    by (rule r(2) [of "[0x61]" 3 "[0x62]" 1]) (simp_all add: f c)
  with e show ?thesis by simp
qed

section \<open>Concrete runs\<close>

text \<open>
  Claim C7. For the input \<^verbatim>\<open>"aaaa"\<close> the tree is the single-leaf wrapper (an internal
  node of weight 4 whose left child is the leaf \<^verbatim>\<open>a\<close> and whose right child is
  \<^verbatim>\<open>null\<close>), the code table is \<^verbatim>\<open>{a: "0"}\<close>, the encoded string is \<^verbatim>\<open>"0000"\<close>
  and the decoded string is \<^verbatim>\<open>"aaaa"\<close>.
\<close>

theorem single_symbol_aaaa:
  "buildHuffmanTree (calculateFrequencies [0x61, 0x61, 0x61, 0x61])
     = Inr (Some (Node None 4 (Some (Node (Some [0x61]) 4 None None)) None))
   \<and> huffmanEncode [0x61, 0x61, 0x61, 0x61]
     = Inr \<lparr>frequencies = [([0x61], 4)], codes = [([0x61], [0x30])],
            encoded = [0x30, 0x30, 0x30, 0x30], decoded = [0x61, 0x61, 0x61, 0x61],
            compressionRatio = 25 / 2, originalSize = 32, compressedSize = 4\<rparr>"
  by code_simp

text \<open>
  Claim C8. The empty input returns, without failing, the result whose tables and strings
  are empty and whose three metrics are 0.
\<close>

theorem empty_input_zeroed:
  "huffmanEncode []
     = Inr \<lparr>frequencies = [], codes = [], encoded = [], decoded = [],
            compressionRatio = 0, originalSize = 0, compressedSize = 0\<rparr>"
  by (simp add: huffmanEncode_def)

text \<open>
  Claim C10. \<^verbatim>\<open>decodeText\<close> is not total: on the wrapper tree built for \<^verbatim>\<open>"aaaa"\<close>,
  whose only code is \<^verbatim>\<open>"0"\<close>, the bit string \<^verbatim>\<open>"1"\<close> sends the walk into the absent
  right child, and the read of \<^verbatim>\<open>current.char\<close> after the loop raises a TypeError.
\<close>

theorem decodeText_wrapper_bit1_raises:
  "buildHuffmanTree (calculateFrequencies [0x61, 0x61, 0x61, 0x61])
     = Inr (Some (Node None 4 (Some (Node (Some [0x61]) 4 None None)) None))
   \<and> generateCodes (Some (Node None 4 (Some (Node (Some [0x61]) 4 None None)) None)) [] []
     = [([0x61], [0x30])]
   \<and> right (Node None 4 (Some (Node (Some [0x61]) 4 None None)) None) = None
   \<and> decodeText [0x31] (Some (Node None 4 (Some (Node (Some [0x61]) 4 None None)) None))
     = Inl TypeError"
proof -
  have "buildHuffmanTree (calculateFrequencies [0x61, 0x61, 0x61, 0x61])
     = Inr (Some (Node None 4 (Some (Node (Some [0x61]) 4 None None)) None))"
    by code_simp
  then show ?thesis
    by (simp add: decodeText_def)
qed

text \<open>
  Claim C1, the round trip, fails on a text with a surrogate pair. The concrete run is
  the text of the one code point U+1F600 (two code units, D83D DE00): the frequency
  table, built by code point, has the single key of two code units; \<^verbatim>\<open>encodeText\<close>
  looks up each code unit on its own and finds nothing, so the encoded string is empty;
  the decoded string is empty and differs from the input. (On a text without surrogate
  pairs the round trip holds: lemma \<open>roundtrip_surrogatePairFree\<close>; in general the
  decoded string keeps exactly the code units that are symbols of the text by
  themselves: lemma \<open>huffmanEncode_nonempty\<close>.)
\<close>

theorem huffmanEncode_surrogate_pair_no_roundtrip:
  "huffmanEncode [0xD83D, 0xDE00]
     = Inr \<lparr>frequencies = [([0xD83D, 0xDE00], 1)], codes = [([0xD83D, 0xDE00], [0x30])],
            encoded = [], decoded = [],
            compressionRatio = 0, originalSize = 16, compressedSize = 0\<rparr>
   \<and> decoded \<lparr>frequencies = [([0xD83D, 0xDE00], 1)], codes = [([0xD83D, 0xDE00], [0x30])],
            encoded = [], decoded = [],
            compressionRatio = 0, originalSize = 16, compressedSize = 0\<rparr> \<noteq> [0xD83D, 0xDE00]"
proof -
  have "huffmanEncode [0xD83D, 0xDE00]
     = Inr \<lparr>frequencies = [([0xD83D, 0xDE00], 1)], codes = [([0xD83D, 0xDE00], [0x30])],
            encoded = [], decoded = [],
            compressionRatio = 0, originalSize = 16, compressedSize = 0\<rparr>"
    by code_simp
  then show ?thesis by simp
qed

text \<open>
  Claim C2, that every lookup of \<^verbatim>\<open>encodeText\<close> finds its key, fails at the same
  input. The two strings that \<^verbatim>\<open>encodeText\<close> looks up are the two surrogates; neither
  is a key of the code table generated from the text's own frequency table, whose only
  key is the pair. (On a text without surrogate pairs every lookup succeeds: lemma
  \<open>lookup_surrogatePairFree\<close>.)
\<close>

theorem encodeText_surrogate_pair_lookup_misses:
  "split_units [0xD83D, 0xDE00] = [[0xD83D], [0xDE00]]
   \<and> calculateFrequencies [0xD83D, 0xDE00] = [([0xD83D, 0xDE00], 1)]
   \<and> buildHuffmanTree (calculateFrequencies [0xD83D, 0xDE00])
     = Inr (Some (Node None 1 (Some (Node (Some [0xD83D, 0xDE00]) 1 None None)) None))
   \<and> map_of (generateCodes (Some (Node None 1 (Some (Node (Some [0xD83D, 0xDE00]) 1 None None)) None)) [] [])
        [0xD83D] = None
   \<and> map_of (generateCodes (Some (Node None 1 (Some (Node (Some [0xD83D, 0xDE00]) 1 None None)) None)) [] [])
        [0xDE00] = None"
proof -
  have f: "calculateFrequencies [0xD83D, 0xDE00] = [([0xD83D, 0xDE00], 1)]"
    by code_simp
  have "buildHuffmanTree [([0xD83D, 0xDE00], 1)]
     = Inr (Some (Node None 1 (Some (Node (Some [0xD83D, 0xDE00]) 1 None None)) None))"
    by code_simp
  with f show ?thesis
    by (simp add: split_units_def)
qed

end
